theory Spec2Isabelle
  imports Main "HOL-Library.Multiset"
begin

section \<open>The batcher package\<close>

text \<open>
  A shallow embedding of package \<open>batcher\<close> (the \<open>RequestBatcher\<close>) and of the two
  functions of \<open>http-batching-service/main.go\<close> that the properties below are about.
  Go values of type \<open>interface{}\<close> are the type variable \<open>'a\<close>; a Go pointer or interface
  that may be \<open>nil\<close> is an \<open>option\<close>. One run of the program is a list of events, each
  executed atomically by \<open>exec\<close>: a section the mutex protects is one event, and so is
  each iteration of a loop of \<open>send\<close>, which runs outside the mutex, so that what one
  iteration publishes can be received before the next iteration runs.
\<close>

subsection \<open>Errors and panics\<close>

text \<open>
  \<open>time.Duration\<close> is an \<open>int64\<close> of nanoseconds. The package only compares durations
  and prints them, so they are integers here.
\<close>

type_synonym duration = int

text \<open>
  The package makes its errors with \<open>fmt.Errorf\<close>; one constructor stands for each call.
  \<open>ErrForeign\<close> is an error value made outside the package (what \<open>SendF\<close> returns),
  known by its message.
\<close>

datatype error =
    ErrNilRequest
  | ErrTimeoutTooShort duration
  | ErrRegisterFailed
  | ErrRequestTimeout duration
  | ErrAPI
  | ErrForeign string

text \<open>
  \<open>err.Error()\<close>. The text of a \<open>time.Duration\<close> under \<open>%v\<close> comes from the Go library
  and is the parameter \<open>fmtDuration\<close>. The character \<open>0x60\<close> is the backquote.
\<close>

fun Error :: "(duration \<Rightarrow> string) \<Rightarrow> error \<Rightarrow> string" where
  "Error fmtDuration ErrNilRequest = ''Received '' @ [CHR 0x60] @ ''nil'' @ [CHR 0x60] @ '' request''"
| "Error fmtDuration (ErrTimeoutTooShort d) =
     ''Timeout period should be longer than batch timout, '' @ fmtDuration d"
| "Error fmtDuration ErrRegisterFailed = ''Failed to register request''"
| "Error fmtDuration (ErrRequestTimeout d) = ''Request timeout after '' @ fmtDuration d"
| "Error fmtDuration ErrAPI = ''API error''"
| "Error fmtDuration (ErrForeign m) = m"

datatype panic =
    NilPointerDereference
  | SendOnClosedChannel
  | CloseOfClosedChannel
  | CloseOfNilChannel
  | IndexOutOfRange
  | TypeAssertionFailed

subsection \<open>Data\<close>

text \<open>\<open>singleResponse\<close>: the fields \<open>body\<close> and \<open>err\<close>.\<close>

record 'a singleResponse =
  rbody :: "'a option"
  err :: "error option"

text \<open>
  A channel \<open>chan *singleResponse\<close> of capacity one: its buffer and whether it is closed.
  \<open>sent\<close> is history: every value ever sent into the channel, in order.
\<close>

record 'a chan =
  buf :: "'a singleResponse option"
  closed :: bool
  sent :: "'a singleResponse list"

text \<open>\<open>batchSubscriber\<close>; the channel is its index in the heap of channels.\<close>

record 'a batchSubscriber =
  singleRequestBody :: 'a
  respCh :: nat

text \<open>\<open>startedBatch\<close>; the timer is its index in the list of timers.\<close>

record 'a startedBatch =
  body :: "'a list"
  subscribers :: "'a batchSubscriber list"
  timer :: nat

text \<open>
  \<open>SendFunc\<close> returns a pointer to a slice and an error. The handler is user code and may
  consult anything; its first argument here is the number of invocations made before this
  one, which stands for whatever the handler's answer depends on besides the batch.
\<close>

type_synonym 'a SendFunc = "nat \<Rightarrow> 'a list \<Rightarrow> 'a list option \<times> error option"

record 'a BatchingConfig =
  MaxBatchSize :: int
  BatchTimeout :: duration
  SendF :: "'a SendFunc"

text \<open>
  A timer made by \<open>time.AfterFunc\<close>: armed; fired (its callback goroutine is started and
  has not yet taken the mutex); stopped by \<open>Stop()\<close> before it fired; or its callback has
  run.
\<close>

datatype timer_state = Armed | Fired | Stopped | Ran

text \<open>
  One invocation of \<open>SendF\<close> by a goroutine that runs \<open>send\<close>: the batch it was given,
  what it returned, and where the goroutine is in the loop that follows. \<open>pending\<close> is
  the loop variable \<open>i\<close> plus one, the number of subscribers the loop has yet to serve:
  it starts at \<open>len(batch.subscribers)\<close> and the loop has ended when it is 0.
\<close>

record 'a invocation =
  sentBatch :: "'a list"
  notified :: "'a batchSubscriber list"
  returned :: "'a list option \<times> error option"
  pending :: nat

text \<open>
  The state of the program: the two mutable fields of \<open>RequestBatcher\<close> (\<open>running\<close>,
  \<open>curBatch\<close>), whether \<open>parentCtx\<close> is cancelled, the channels and timers the batcher
  has made, the goroutines \<open>go func() { b.send(batch) }()\<close> that were started and have
  not yet run, the invocations of \<open>SendF\<close> so far, each with the progress of its
  goroutine, and the panic that ended the process, if one did.
\<close>

record 'a state =
  running :: bool
  curBatch :: "'a startedBatch option"
  parentDone :: bool
  chans :: "'a chan list"
  timers :: "timer_state list"
  goroutines :: "'a startedBatch list"
  calls :: "'a invocation list"
  crashed :: "panic option"

subsection \<open>Channels and timers of the Go runtime\<close>

datatype 'x effect = Done 'x | Panic panic | Block

text \<open>
  \<open>ch <- v\<close>: panics on a closed channel, blocks while the buffer is full. An index beyond
  the heap is no channel at all (Go's \<open>nil\<close> channel, on which a send blocks forever).
\<close>

definition chan_send :: "nat \<Rightarrow> 'a singleResponse \<Rightarrow> 'a chan list \<Rightarrow> 'a chan list effect" where
  "chan_send c v chs =
     (if length chs \<le> c then Block
      else if closed (chs ! c) then Panic SendOnClosedChannel
      else if buf (chs ! c) \<noteq> None then Block
      else Done (chs[c := (chs ! c)\<lparr>buf := Some v, sent := sent (chs ! c) @ [v]\<rparr>]))"

text \<open>\<open>close(ch)\<close>: panics on a closed channel.\<close>

definition chan_close :: "nat \<Rightarrow> 'a chan list \<Rightarrow> panic + 'a chan list" where
  "chan_close c chs =
     (if length chs \<le> c then Inl CloseOfNilChannel
      else if closed (chs ! c) then Inl CloseOfClosedChannel
      else Inr (chs[c := (chs ! c)\<lparr>closed := True\<rparr>]))"

text \<open>
  \<open><-ch\<close>: the buffered value if there is one; \<open>nil\<close> at once if the channel is closed
  and empty; blocks otherwise.
\<close>

definition chan_recv :: "nat \<Rightarrow> 'a chan list \<Rightarrow> ('a singleResponse option \<times> 'a chan list) effect" where
  "chan_recv c chs =
     (if length chs \<le> c then Block
      else case buf (chs ! c) of
             Some v \<Rightarrow> Done (Some v, chs[c := (chs ! c)\<lparr>buf := None\<rparr>])
           | None \<Rightarrow> if closed (chs ! c) then Done (None, chs) else Block)"

text \<open>\<open>timer.Stop()\<close> prevents the callback only if the timer has not fired yet.\<close>

definition timer_Stop :: "nat \<Rightarrow> timer_state list \<Rightarrow> timer_state list" where
  "timer_Stop t ts = (if t < length ts \<and> ts ! t = Armed then ts[t := Stopped] else ts)"

subsection \<open>The RequestBatcher\<close>

text \<open>
  \<open>NewRequestBatcher\<close>. A \<open>nil\<close> \<open>SendF\<close> ends the process in \<open>log.Fatal\<close> before any
  batcher exists; \<open>SendF\<close> is a function here. The goroutine that waits for
  \<open>parentCtx.Done()\<close> and then calls \<open>stop\<close> is the events \<open>Cancel\<close> and \<open>Stop\<close> below.
\<close>

definition NewRequestBatcher :: "'a BatchingConfig \<Rightarrow> 'a state" where
  "NewRequestBatcher cfg =
     \<lparr>running = True, curBatch = None, parentDone = False, chans = [], timers = [],
      goroutines = [], calls = [], crashed = None\<rparr>"

text \<open>\<open>sendCurBatch\<close>: pops \<open>curBatch\<close> and starts the goroutine that sends it.\<close>

definition sendCurBatch :: "'a state \<Rightarrow> 'a state" where
  "sendCurBatch s =
     (case curBatch s of
        None \<Rightarrow> s\<lparr>curBatch := None\<rparr>
      | Some batch \<Rightarrow> s\<lparr>curBatch := None, goroutines := goroutines s @ [batch]\<rparr>)"

text \<open>\<open>sendCurBatchWithSafety\<close>, the timer's callback: the same under the mutex.\<close>

definition sendCurBatchWithSafety :: "'a state \<Rightarrow> 'a state" where
  "sendCurBatchWithSafety s =
     (case curBatch s of
        None \<Rightarrow> s\<lparr>curBatch := None\<rparr>
      | Some batch \<Rightarrow> s\<lparr>curBatch := None, goroutines := goroutines s @ [batch]\<rparr>)"

text \<open>
  The end of \<open>registerRequest\<close>: a new batch from the request, and its timer
  \<open>time.AfterFunc(b.BatchTimeout, b.sendCurBatchWithSafety)\<close>.
\<close>

definition createBatch :: "'a batchSubscriber \<Rightarrow> 'a state \<Rightarrow> 'a state" where
  "createBatch sub s =
     s\<lparr>curBatch := Some \<lparr>body = [singleRequestBody sub], subscribers = [sub],
                          timer = length (timers s)\<rparr>,
       timers := timers s @ [Armed]\<rparr>"

text \<open>
  \<open>registerRequest\<close>, run under the mutex. It returns the channel and the error, and the
  new state.
\<close>

definition registerRequest ::
  "'a BatchingConfig \<Rightarrow> 'a \<Rightarrow> 'a state \<Rightarrow> (nat \<times> error option) \<times> 'a state" where
  "registerRequest cfg newRequestBody s0 =
     (let ch = length (chans s0);
          sub = \<lparr>singleRequestBody = newRequestBody, respCh = ch\<rparr>;
          s = s0\<lparr>chans := chans s0 @ [\<lparr>buf = None, closed = False, sent = []\<rparr>]\<rparr>
      in case curBatch s of
           Some cur \<Rightarrow>
             if int (length (body cur)) < MaxBatchSize cfg then
               let cur' = cur\<lparr>body := body cur @ [newRequestBody],
                              subscribers := subscribers cur @ [sub]\<rparr>;
                   s1 = s\<lparr>curBatch := Some cur'\<rparr>
               in if MaxBatchSize cfg \<le> int (length (body cur'))
                  then ((ch, None),
                        sendCurBatch (s1\<lparr>timers := timer_Stop (timer cur') (timers s1)\<rparr>))
                  else ((ch, None), s1)
             else ((ch, None),
                   createBatch sub
                     (sendCurBatch (s\<lparr>timers := timer_Stop (timer cur) (timers s)\<rparr>)))
         | None \<Rightarrow> ((ch, None), createBatch sub s))"

text \<open>
  \<open>SendRequestWithTimeout\<close> up to its \<open>select\<close>: the two checks and the registration.
  It returns the error it ends with, or the channel it goes on to wait on.
\<close>

definition SendRequestWithTimeout ::
  "'a BatchingConfig \<Rightarrow> 'a option \<Rightarrow> duration \<Rightarrow> 'a state \<Rightarrow> (error + nat) \<times> 'a state" where
  "SendRequestWithTimeout cfg newRequestBody timeout s =
     (case newRequestBody of
        None \<Rightarrow> (Inl ErrNilRequest, s)
      | Some x \<Rightarrow>
          if timeout \<le> BatchTimeout cfg then (Inl (ErrTimeoutTooShort (BatchTimeout cfg)), s)
          else (case registerRequest cfg x s of
                  ((ch, Some e), s') \<Rightarrow> (Inl ErrRegisterFailed, s')
                | ((ch, None), s') \<Rightarrow> (Inr ch, s')))"

text \<open>
  The \<open>select\<close> of \<open>SendRequestWithTimeout\<close> in state \<open>s\<close>, for a caller that waits on
  channel \<open>ch\<close>. The context is done when the parent is cancelled or the timeout has
  \<open>expired\<close>. When both cases are ready Go picks one at random: \<open>pick\<close> says whether it is
  the receive. A receive from a closed, empty channel yields \<open>nil\<close>, and \<open>resp.err\<close> then
  dereferences it. The \<open>select\<close> reads the channel and the context only: a caller takes
  a value that was published before another goroutine panics.
\<close>

definition awaitResponse ::
  "duration \<Rightarrow> bool \<Rightarrow> bool \<Rightarrow> nat \<Rightarrow> 'a state \<Rightarrow> (error + 'a option) effect" where
  "awaitResponse timeout expired pick ch s =
     (let ctxDone = (parentDone s \<or> expired) in
      case chan_recv ch (chans s) of
        Done (resp, chs) \<Rightarrow>
          if ctxDone \<and> \<not> pick then Done (Inl (ErrRequestTimeout timeout))
          else (case resp of
                  None \<Rightarrow> Panic NilPointerDereference
                | Some r \<Rightarrow> (case err r of Some e \<Rightarrow> Done (Inl e)
                                          | None \<Rightarrow> Done (Inr (rbody r))))
      | Panic p \<Rightarrow> Panic p
      | Block \<Rightarrow> if ctxDone then Done (Inl (ErrRequestTimeout timeout)) else Block)"

text \<open>
  \<open>stop\<close>: the loop \<open>for i := len(subscribers) - 1; i >= 0; i--\<close> that closes the
  channels, from the last subscriber to the first.
\<close>

fun closeAll :: "'a batchSubscriber list \<Rightarrow> nat \<Rightarrow> 'a chan list \<Rightarrow> panic option \<times> 'a chan list" where
  "closeAll subs 0 chs = (None, chs)"
| "closeAll subs (Suc i) chs =
     (case chan_close (respCh (subs ! i)) chs of
        Inl p \<Rightarrow> (Some p, chs)
      | Inr chs' \<Rightarrow> closeAll subs i chs')"

definition stop :: "'a state \<Rightarrow> 'a state" where
  "stop s0 =
     (let s = s0\<lparr>running := False\<rparr>
      in case curBatch s of
           None \<Rightarrow> s
         | Some cur \<Rightarrow>
             (case closeAll (subscribers cur) (length (subscribers cur)) (chans s) of
                (None, chs) \<Rightarrow>
                  s\<lparr>timers := timer_Stop (timer cur) (timers s), chans := chs\<rparr>
              | (Some p, chs) \<Rightarrow>
                  s\<lparr>timers := timer_Stop (timer cur) (timers s), chans := chs,
                    crashed := Some p\<rparr>))"

text \<open>
  The response \<open>send\<close> builds for subscriber \<open>i\<close>, by what \<open>SendF\<close> returned: the error,
  in the first loop; \<open>API error\<close>, in the second; \<open>(*batchResp)[i]\<close>, in the third. \<open>n\<close> is
  \<open>len(batch.body)\<close>.
\<close>

definition response ::
  "nat \<Rightarrow> 'a list option \<times> error option \<Rightarrow> nat \<Rightarrow> panic + 'a singleResponse" where
  "response n out i =
     (case out of
        (_, Some e) \<Rightarrow> Inr \<lparr>rbody = None, err = Some e\<rparr>
      | (None, None) \<Rightarrow> Inl NilPointerDereference
      | (Some resp, None) \<Rightarrow>
          if length resp \<noteq> n then Inr \<lparr>rbody = None, err = Some ErrAPI\<rparr>
          else if i < length resp then Inr \<lparr>rbody = Some (resp ! i), err = None\<rparr>
          else Inl IndexOutOfRange)"

text \<open>
  \<open>send\<close>, up to the entry of its loop: the call of \<open>SendF\<close>, and \<open>len(*batchResp)\<close>, which
  panics when \<open>SendF\<close> returned \<open>nil\<close> with a \<open>nil\<close> error. The goroutine is then at the top
  of one of the three loops, with \<open>i = len(batch.subscribers) - 1\<close>.
\<close>

definition send :: "'a BatchingConfig \<Rightarrow> 'a startedBatch \<Rightarrow> 'a state \<Rightarrow> 'a state" where
  "send cfg batch s0 =
     (let out = SendF cfg (length (calls s0)) (body batch);
          s = s0\<lparr>calls := calls s0 @
                 [\<lparr>sentBatch = body batch, notified = subscribers batch, returned = out,
                   pending = length (subscribers batch)\<rparr>]\<rparr>
      in case out of
           (None, None) \<Rightarrow> s\<lparr>crashed := Some NilPointerDereference\<rparr>
         | _ \<Rightarrow> s)"

text \<open>
  One iteration of the loop of \<open>send\<close>, by the goroutine of invocation \<open>k\<close>. The three
  loops have one body, \<open>respCh <- &singleResponse{...}; close(respCh)\<close>, and run from the
  last subscriber to the first. A send that blocks leaves the goroutine where it is.
  The send and the close of one iteration are one step: the batch has left \<open>curBatch\<close>,
  so that between the two only the receiver can touch the channel, and its receive
  yields the same value before the close as after it.
\<close>

definition sendLoop :: "nat \<Rightarrow> 'a state \<Rightarrow> 'a state" where
  "sendLoop k s =
     (if length (calls s) \<le> k then s
      else
        let c = calls s ! k in
        case pending c of
          0 \<Rightarrow> s
        | Suc i \<Rightarrow>
            (case response (length (sentBatch c)) (returned c) i of
               Inl p \<Rightarrow> s\<lparr>crashed := Some p\<rparr>
             | Inr r \<Rightarrow>
                 (case chan_send (respCh (notified c ! i)) r (chans s) of
                    Panic p \<Rightarrow> s\<lparr>crashed := Some p\<rparr>
                  | Block \<Rightarrow> s
                  | Done chs1 \<Rightarrow>
                      (case chan_close (respCh (notified c ! i)) chs1 of
                         Inl p \<Rightarrow> s\<lparr>chans := chs1, crashed := Some p\<rparr>
                       | Inr chs2 \<Rightarrow>
                           s\<lparr>chans := chs2,
                             calls := (calls s)[k := c\<lparr>pending := i\<rparr>]\<rparr>))))"

subsection \<open>Runs of the program\<close>

text \<open>
  The events of a run: a goroutine calls \<open>SendRequestWithTimeout\<close> and runs it up to the
  \<open>select\<close>; a timer fires; a fired timer's callback runs; a started goroutine runs
  \<open>send\<close> up to its loop; the goroutine of an invocation runs one iteration of that loop;
  a waiting caller's \<open>select\<close> receives from its channel; the parent context is cancelled;
  the watcher goroutine runs \<open>stop\<close> (once: \<open>running\<close> is true until it has).
\<close>

datatype 'a event =
    Call "'a option" duration
  | Fire nat
  | Callback nat
  | Send nat
  | Publish nat
  | Receive nat
  | Cancel
  | Stop

fun step :: "'a BatchingConfig \<Rightarrow> 'a event \<Rightarrow> 'a state \<Rightarrow> 'a state" where
  "step cfg (Call newRequestBody timeout) s = snd (SendRequestWithTimeout cfg newRequestBody timeout s)"
| "step cfg (Fire t) s =
     (if t < length (timers s) \<and> timers s ! t = Armed
      then s\<lparr>timers := (timers s)[t := Fired]\<rparr> else s)"
| "step cfg (Callback t) s =
     (if t < length (timers s) \<and> timers s ! t = Fired
      then sendCurBatchWithSafety (s\<lparr>timers := (timers s)[t := Ran]\<rparr>) else s)"
| "step cfg (Send k) s =
     (if k < length (goroutines s)
      then send cfg (goroutines s ! k)
             (s\<lparr>goroutines := take k (goroutines s) @ drop (Suc k) (goroutines s)\<rparr>)
      else s)"
| "step cfg (Publish k) s = sendLoop k s"
| "step cfg (Receive c) s =
     (case chan_recv c (chans s) of Done (r, chs) \<Rightarrow> s\<lparr>chans := chs\<rparr> | _ \<Rightarrow> s)"
| "step cfg Cancel s = s\<lparr>parentDone := True\<rparr>"
| "step cfg Stop s = (if parentDone s \<and> running s then stop s else s)"

text \<open>No goroutine of the batcher runs after a panic.\<close>

definition exec :: "'a BatchingConfig \<Rightarrow> 'a event \<Rightarrow> 'a state \<Rightarrow> 'a state" where
  "exec cfg e s = (case crashed s of Some p \<Rightarrow> s | None \<Rightarrow> step cfg e s)"

definition execs :: "'a BatchingConfig \<Rightarrow> 'a event list \<Rightarrow> 'a state \<Rightarrow> 'a state" where
  "execs cfg evs s = foldl (\<lambda>s e. exec cfg e s) s evs"

definition run :: "'a BatchingConfig \<Rightarrow> 'a event list \<Rightarrow> 'a state" where
  "run cfg evs = execs cfg evs (NewRequestBatcher cfg)"

text \<open>
  The batchers of the package's tests: \<open>dummySendF\<close> returns its argument;
  \<open>delayedBatcher\<close> has \<open>MaxBatchSize: 32\<close> and \<open>BatchTimeout: time.Millisecond\<close>.
  \<open>pairBatcher\<close> is the same with batches of two. Their requests are numbers here.
\<close>

definition dummySendF :: "'a SendFunc" where
  "dummySendF n batch = (Some batch, None)"

definition delayedBatcher :: "nat BatchingConfig" where
  "delayedBatcher = \<lparr>MaxBatchSize = 32, BatchTimeout = 1000000, SendF = dummySendF\<rparr>"

definition pairBatcher :: "nat BatchingConfig" where
  "pairBatcher = \<lparr>MaxBatchSize = 2, BatchTimeout = 1000000, SendF = dummySendF\<rparr>"

section \<open>The HTTP service (main.go)\<close>

text \<open>
  The service gives the batcher \<open>[]byte\<close> values inside \<open>interface{}\<close> and asserts the
  type when it reads them back: a value is a byte slice or it is not.
\<close>

datatype iface = Bytes string | NotBytes

subsection \<open>SendF\<close>

text \<open>
  The loop \<open>for i := 1; i < len(*batchReq); i++\<close> of \<open>SendF\<close>, which writes a comma
  (byte 44) and the next item into the buffer.
\<close>

function writeRest :: "nat \<Rightarrow> iface list \<Rightarrow> string \<Rightarrow> panic + string" where
  "writeRest i batchReq out =
     (if i < length batchReq
      then (case batchReq ! i of
              Bytes r \<Rightarrow> writeRest (Suc i) batchReq (out @ [CHR 0x2C] @ r)
            | NotBytes \<Rightarrow> Inl TypeAssertionFailed)
      else Inr out)"
  by pat_completeness auto
termination
  by (relation "measure (\<lambda>(i, batchReq, out). length batchReq - i)") auto

declare writeRest.simps [simp del]

text \<open>
  The buffer \<open>SendF\<close> posts: byte 91, the first item (\<open>(*batchReq)[0]\<close> panics on an empty
  batch), the rest, byte 93.
\<close>

definition writeBody :: "iface list \<Rightarrow> panic + string" where
  "writeBody batchReq =
     (case batchReq of
        [] \<Rightarrow> Inl IndexOutOfRange
      | first # _ \<Rightarrow>
          (case first of
             NotBytes \<Rightarrow> Inl TypeAssertionFailed
           | Bytes r \<Rightarrow>
               (case writeRest 1 batchReq ([CHR 0x5B] @ r) of
                  Inl p \<Rightarrow> Inl p
                | Inr out \<Rightarrow> Inr (out @ [CHR 0x5D]))))"

text \<open>
  \<open>SendF\<close> of main.go. \<open>backend\<close> is everything after the buffer is written: the POST of
  the buffer and the parsing of the reply into the marshalled elements of a JSON array,
  or the error one of these steps returned.
\<close>

definition mainSendF ::
  "(string \<Rightarrow> error + string list) \<Rightarrow> iface list \<Rightarrow> panic + (iface list option \<times> error option)" where
  "mainSendF backend batchReq =
     (case writeBody batchReq of
        Inl p \<Rightarrow> Inl p
      | Inr out \<Rightarrow>
          (case backend out of
             Inl e \<Rightarrow> Inr (None, Some e)
           | Inr vs \<Rightarrow> Inr (Some (map Bytes vs), None)))"

text \<open>
  What the specification says the body is: \<open>[\<close>, the items separated by commas, \<open>]\<close>.
\<close>

fun commaJoin :: "string list \<Rightarrow> string" where
  "commaJoin [] = []"
| "commaJoin [r] = r"
| "commaJoin (r # rs) = r @ '','' @ commaJoin rs"

definition jsonArray :: "string list \<Rightarrow> string" where
  "jsonArray rs = ''['' @ commaJoin rs @ '']''"

subsection \<open>RootHandler\<close>

text \<open>\<open>strings.HasPrefix\<close> and \<open>strings.Contains\<close> of the Go library.\<close>

fun HasPrefix :: "string \<Rightarrow> string \<Rightarrow> bool" where
  "HasPrefix s [] = True"
| "HasPrefix [] (c # prefix) = False"
| "HasPrefix (x # s) (c # prefix) = (x = c \<and> HasPrefix s prefix)"

fun Contains :: "string \<Rightarrow> string \<Rightarrow> bool" where
  "Contains [] substr = (substr = [])"
| "Contains (x # s) substr = (HasPrefix (x # s) substr \<or> Contains s substr)"

text \<open>What the handler does with the \<open>http.ResponseWriter\<close>: one of two calls.\<close>

datatype reply = Write string | HttpError string nat

text \<open>
  \<open>RootHandler\<close>. Its surroundings are parameters: the request's method; the value
  \<open>jason.NewValueFromReader\<close> parsed from the body (\<open>None\<close> when it returned an error);
  \<open>Marshal\<close> of that value (\<open>None\<close> when it returned an error); and \<open>submit\<close>, how the call
  \<open>requestBatcher.SendRequestWithTimeout(&body, idleTimeout)\<close> ends.
\<close>

definition RootHandler ::
  "(duration \<Rightarrow> string) \<Rightarrow> string \<Rightarrow> string \<Rightarrow> 'j option \<Rightarrow> ('j \<Rightarrow> string option)
     \<Rightarrow> (iface \<Rightarrow> (error + iface option) effect) \<Rightarrow> reply effect" where
  "RootHandler fmtDuration backendAddr method jasonBody marshal submit =
     (if method \<noteq> ''POST'' then Done (Write (''batcher for '' @ backendAddr))
      else case jasonBody of
             None \<Rightarrow> Done (HttpError ''Expecting request body in JSON format'' 400)
           | Some j \<Rightarrow>
               (case marshal j of
                  None \<Rightarrow> Done (HttpError ''Error converting json body into []byte'' 400)
                | Some marshalled \<Rightarrow>
                    (case submit (Bytes marshalled) of
                       Panic p \<Rightarrow> Panic p
                     | Block \<Rightarrow> Block
                     | Done (Inl e) \<Rightarrow>
                         (let msg = Error fmtDuration e;
                              statusCode = (if Contains msg ''timeout'' then 408 else 400)
                          in Done (HttpError msg statusCode))
                     | Done (Inr res) \<Rightarrow>
                         (case res of
                            Some (Bytes bs) \<Rightarrow> Done (Write bs)
                          | _ \<Rightarrow> Panic TypeAssertionFailed))))"

text \<open>
  Examples used below: a printer of durations, a request that parses, and a backend
  whose connection timed out (the error text of Go's dialer).
\<close>

definition minuteText :: "duration \<Rightarrow> string" where
  "minuteText d = ''1m0s''"

definition marshalAny :: "string \<Rightarrow> string option" where
  "marshalAny j = Some j"

definition backendDown :: "iface \<Rightarrow> (error + iface option) effect" where
  "backendDown req = Done (Inl (ErrForeign ''dial tcp 10.0.0.1:80: i/o timeout''))"

section \<open>Invariants of a run\<close>

text \<open>The batches that wait to be sent: those of started goroutines and the open batch.\<close>

definition live :: "'a state \<Rightarrow> 'a startedBatch list" where
  "live s = goroutines s @ (case curBatch s of None \<Rightarrow> [] | Some b \<Rightarrow> [b])"

definition waiting :: "'a state \<Rightarrow> 'a batchSubscriber list" where
  "waiting s = concat (map subscribers (live s))"

text \<open>The subscribers of the batches that were given to \<open>SendF\<close>.\<close>

definition served :: "'a state \<Rightarrow> 'a batchSubscriber list" where
  "served s = concat (map notified (calls s))"

text \<open>A channel that got response \<open>v\<close> from \<open>send\<close>: sent once, then closed.\<close>

definition processed :: "'a chan \<Rightarrow> 'a singleResponse \<Rightarrow> bool" where
  "processed ch v \<longleftrightarrow> sent ch = [v] \<and> closed ch \<and> (buf ch = None \<or> buf ch = Some v)"

text \<open>The channel of a subscriber that nothing was sent to yet.\<close>

definition untouched :: "'a chan list \<Rightarrow> 'a batchSubscriber \<Rightarrow> bool" where
  "untouched chs u \<longleftrightarrow> sent (chs ! respCh u) = [] \<and> buf (chs ! respCh u) = None"

text \<open>
  Invocation \<open>k\<close>, the \<open>i\<close>-th of the run, is in order: its batch is the requests of its
  subscribers, it holds what \<open>SendF\<close> returned, the channels of the subscribers its loop
  has yet to serve are untouched, and the channel of every other subscriber got the
  response \<open>send\<close> builds for it.
\<close>

definition delivered :: "'a BatchingConfig \<Rightarrow> 'a chan list \<Rightarrow> nat \<Rightarrow> 'a invocation \<Rightarrow> bool" where
  "delivered cfg chs i k \<longleftrightarrow>
     sentBatch k = map singleRequestBody (notified k)
   \<and> returned k = SendF cfg i (sentBatch k)
   \<and> pending k \<le> length (notified k)
   \<and> (\<forall>j < pending k. untouched chs (notified k ! j))
   \<and> (\<forall>j < length (notified k). pending k \<le> j \<longrightarrow>
         (\<exists>v. response (length (sentBatch k)) (returned k) j = Inr v
            \<and> processed (chs ! respCh (notified k ! j)) v))"

text \<open>
  What holds in every state of a run: every channel belongs to exactly one subscriber;
  the two slices of a batch are parallel; every invocation of \<open>SendF\<close> is in order; and
  the channels of the batches that wait are untouched.
\<close>

definition inv :: "'a BatchingConfig \<Rightarrow> 'a state \<Rightarrow> bool" where
  "inv cfg s \<longleftrightarrow>
        mset (map respCh (waiting s @ served s)) = mset [0..<length (chans s)]
      \<and> (\<forall>b \<in> set (live s). body b = map singleRequestBody (subscribers b))
      \<and> (\<forall>i < length (calls s). delivered cfg (chans s) i (calls s ! i))
      \<and> (\<forall>u \<in> set (waiting s). untouched (chans s) u)"

text \<open>
  The sizes of the batches, for a batcher with \<open>MaxBatchSize\<close> at least one: two
  parallel slices, of at least one and at most \<open>m\<close> elements.
\<close>

definition bounded :: "int \<Rightarrow> 'x list \<Rightarrow> 'y list \<Rightarrow> bool" where
  "bounded m xs ys \<longleftrightarrow> 1 \<le> length xs \<and> int (length xs) \<le> m \<and> length xs = length ys"

definition sized :: "'a BatchingConfig \<Rightarrow> 'a state \<Rightarrow> bool" where
  "sized cfg s \<longleftrightarrow>
     (\<forall>b \<in> set (live s). bounded (MaxBatchSize cfg) (body b) (subscribers b))
   \<and> (\<forall>k \<in> set (calls s). bounded (MaxBatchSize cfg) (sentBatch k) (notified k))"

text \<open>
  Invocation \<open>k\<close> returned \<open>resp\<close>, one element per subscriber, and every subscriber \<open>j\<close>
  of the batch was sent element \<open>j\<close> and nothing else, and its channel is closed.
\<close>

definition fannedOut :: "'a state \<Rightarrow> 'a invocation \<Rightarrow> 'a list \<Rightarrow> bool" where
  "fannedOut s k resp \<longleftrightarrow>
     returned k = (Some resp, None) \<and> length resp = length (sentBatch k)
   \<and> length resp = length (notified k)
   \<and> list_all (\<lambda>j. sent (chans s ! respCh (notified k ! j)) = [\<lparr>rbody = Some (resp ! j), err = None\<rparr>]
                   \<and> closed (chans s ! respCh (notified k ! j)))
        [0..<length resp]"

text \<open>What \<open>stop\<close> and a receive do to channels: nothing is sent, nothing reopens.\<close>

definition settles :: "'a chan list \<Rightarrow> 'a chan list \<Rightarrow> bool" where
  "settles chs chs' \<longleftrightarrow>
     length chs' = length chs
   \<and> (\<forall>c. sent (chs' ! c) = sent (chs ! c) \<and> (closed (chs ! c) \<longrightarrow> closed (chs' ! c))
          \<and> (buf (chs' ! c) = buf (chs ! c) \<or> buf (chs' ! c) = None))"

section \<open>Properties\<close>

text \<open>The equations that evaluate a run on concrete events.\<close>

lemmas run_simps = run_def execs_def exec_def NewRequestBatcher_def SendRequestWithTimeout_def
  registerRequest_def createBatch_def sendCurBatch_def sendCurBatchWithSafety_def timer_Stop_def
  send_def sendLoop_def stop_def response_def chan_send_def chan_close_def chan_recv_def
  awaitResponse_def
  dummySendF_def delayedBatcher_def pairBatcher_def Let_def


subsection \<open>Registration\<close>

lemma registerRequest_result:
  "registerRequest cfg x s = ((ch, e), s') \<Longrightarrow> ch = length (chans s) \<and> e = None"
  by (auto simp: registerRequest_def Let_def split: option.splits if_splits)

text \<open>
  C6. \<open>SendRequestWithTimeout\<close> called with a \<open>nil\<close> request body, or with a timeout
  that is at most \<open>BatchTimeout\<close>, returns its error (\<open>Received `nil` request\<close>, or
  \<open>Timeout period should be longer than batch timout\<close>: the specification's
  InvalidArgument) before any registration: the state after the call is the state
  before it, open batch included.
\<close>

theorem SendRequestWithTimeout_rejects:
  assumes "newRequestBody = None \<or> timeout \<le> BatchTimeout cfg"
  shows "SendRequestWithTimeout cfg newRequestBody timeout s =
           (Inl (if newRequestBody = None then ErrNilRequest
                 else ErrTimeoutTooShort (BatchTimeout cfg)), s)
         \<and> exec cfg (Call newRequestBody timeout) s = s"
  using assms by (auto simp: SendRequestWithTimeout_def exec_def split: option.splits)

theorem SendRequestWithTimeout_rejects_witness:
  "(Some (5::nat) = None \<or> 1000000 \<le> BatchTimeout delayedBatcher)
   \<and> SendRequestWithTimeout delayedBatcher (Some 5) 1000000
         (run delayedBatcher [Call (Some 4) 2000000])
       = (Inl (ErrTimeoutTooShort 1000000), run delayedBatcher [Call (Some 4) 2000000])
   \<and> curBatch (run delayedBatcher [Call (Some 4) 2000000]) \<noteq> None"
proof -
  have h: "Some (5::nat) = None \<or> 1000000 \<le> BatchTimeout delayedBatcher"
    by (simp add: delayedBatcher_def)
  have b: "curBatch (run delayedBatcher [Call (Some 4) 2000000]) \<noteq> None"
    by (simp add: run_def execs_def exec_def NewRequestBatcher_def SendRequestWithTimeout_def
        registerRequest_def createBatch_def delayedBatcher_def)
  from SendRequestWithTimeout_rejects[OF h, of "run delayedBatcher [Call (Some 4) 2000000]"] h b
  show ?thesis by (simp add: delayedBatcher_def)
qed

text \<open>
  C10. \<open>registerRequest\<close> returns a \<open>nil\<close> error on every path, so
  \<open>SendRequestWithTimeout\<close> never returns \<open>Failed to register request\<close>: a call with a
  request body and a timeout above \<open>BatchTimeout\<close> always goes on to wait on the channel
  \<open>registerRequest\<close> made for it.
\<close>

theorem registerRequest_never_fails:
  "snd (fst (registerRequest cfg x s)) = None
   \<and> fst (SendRequestWithTimeout cfg newRequestBody timeout s) \<noteq> Inl ErrRegisterFailed
   \<and> fst (SendRequestWithTimeout cfg (Some x) timeout s) =
       (if timeout \<le> BatchTimeout cfg then Inl (ErrTimeoutTooShort (BatchTimeout cfg))
        else Inr (length (chans s)))"
  by (auto simp: SendRequestWithTimeout_def split: option.splits prod.splits
        dest: registerRequest_result)

subsection \<open>The body SendF posts\<close>

lemma writeRest_bytes:
  "i \<le> length rs \<Longrightarrow>
   writeRest i (map Bytes rs) out = Inr (out @ concat (map (\<lambda>r. CHR 0x2C # r) (drop i rs)))"
proof (induction "length rs - i" arbitrary: i out)
  case 0
  then have "i = length rs" by simp
  then show ?case by (subst writeRest.simps) simp
next
  case (Suc n)
  then have lt: "i < length rs" by simp
  then have d: "drop i rs = rs ! i # drop (Suc i) rs"
    by (simp add: Cons_nth_drop_Suc)
  from lt have "writeRest i (map Bytes rs) out
      = writeRest (Suc i) (map Bytes rs) (out @ [CHR 0x2C] @ rs ! i)"
    by (subst writeRest.simps) simp
  also have "\<dots> = Inr ((out @ [CHR 0x2C] @ rs ! i)
                       @ concat (map (\<lambda>r. CHR 0x2C # r) (drop (Suc i) rs)))"
    using Suc.hyps(2) lt by (intro Suc.hyps(1)) simp_all
  finally show ?case by (simp add: d)
qed

lemma commaJoin_Cons: "commaJoin (r # rs) = r @ concat (map (\<lambda>r. CHR 0x2C # r) rs)"
  by (induction rs arbitrary: r) auto

text \<open>
  C8. For every non-empty batch of byte slices \<open>r0, ..., r(n-1)\<close>, the body \<open>SendF\<close> writes
  and posts to the backend is \<open>[\<close>, then \<open>r0\<close>, then a comma and the next item for each
  further item, then \<open>]\<close>: the items in batch order as a JSON array.
\<close>

theorem SendF_body:
  assumes "rs \<noteq> []"
  shows "writeBody (map Bytes rs) = Inr (jsonArray rs)
         \<and> mainSendF backend (map Bytes rs) =
             (case backend (jsonArray rs) of Inl e \<Rightarrow> Inr (None, Some e)
              | Inr vs \<Rightarrow> Inr (Some (map Bytes vs), None))"
proof -
  from assms obtain r rest where rs: "rs = r # rest" by (cases rs) auto
  have "writeRest 1 (map Bytes rs) ([CHR 0x5B] @ r) =
          Inr (([CHR 0x5B] @ r) @ concat (map (\<lambda>r. CHR 0x2C # r) (drop 1 rs)))"
    by (rule writeRest_bytes) (simp add: rs)
  then have "writeBody (map Bytes rs) = Inr (jsonArray rs)"
    by (simp add: writeBody_def jsonArray_def rs commaJoin_Cons del: commaJoin.simps)
  then show ?thesis by (simp add: mainSendF_def)
qed

theorem SendF_body_witness:
  "[''{}'', ''7''] \<noteq> []
   \<and> writeBody [Bytes ''{}'', Bytes ''7''] = Inr ''[{},7]''"
  using SendF_body[of "[''{}'', ''7'']"] by (simp add: jsonArray_def)

subsection \<open>The status codes of RootHandler\<close>

lemma HasPrefix_append: "HasPrefix s p \<Longrightarrow> HasPrefix (s @ t) p"
  by (induction s p rule: HasPrefix.induct) auto

lemma Contains_append: "Contains s sub \<Longrightarrow> Contains (s @ t) sub"
proof (induction s)
  case Nil
  then show ?case by (cases t) auto
next
  case (Cons x s)
  then show ?case using HasPrefix_append[of "x # s" sub t] by auto
qed

lemma no_t_no_timeout: "CHR ''t'' \<notin> set q \<Longrightarrow> \<not> Contains q ''timeout''"
  by (induction q) auto

lemma HasPrefix_iff: "HasPrefix s p \<longleftrightarrow> (\<exists>q. s = p @ q)"
  by (induction s p rule: HasPrefix.induct) auto

lemma Contains_iff: "Contains s sub \<longleftrightarrow> (\<exists>p q. s = p @ sub @ q)"
proof (induction s)
  case Nil
  then show ?case by auto
next
  case (Cons x s)
  show ?case
  proof
    assume "Contains (x # s) sub"
    then consider "HasPrefix (x # s) sub" | "Contains s sub" by auto
    then show "\<exists>p q. x # s = p @ sub @ q"
    proof cases
      case 1
      then obtain q where "x # s = sub @ q" by (auto simp: HasPrefix_iff)
      then have "x # s = [] @ sub @ q" by simp
      then show ?thesis by blast
    next
      case 2
      with Cons obtain p q where "s = p @ sub @ q" by auto
      then have "x # s = (x # p) @ sub @ q" by simp
      then show ?thesis by blast
    qed
  next
    assume "\<exists>p q. x # s = p @ sub @ q"
    then obtain p q where e: "x # s = p @ sub @ q" by auto
    show "Contains (x # s) sub"
    proof (cases p)
      case Nil
      with e have "HasPrefix (x # s) sub" by (auto simp: HasPrefix_iff)
      then show ?thesis by simp
    next
      case (Cons y p')
      with e have "s = p' @ sub @ q" by simp
      with Cons.IH have "Contains s sub" by blast
      then show ?thesis by simp
    qed
  qed
qed

text \<open>
  C9 (amended). When the submission of a POST request with valid JSON ends in an error,
  \<open>RootHandler\<close> answers through \<open>http.Error\<close> with the error's message and with status
  408 exactly when that message contains the text \<open>timeout\<close>, and 400 otherwise. The
  message of the per-caller timeout (\<open>Request timeout after ...\<close>) always contains it;
  the messages \<open>Received `nil` request\<close>, \<open>Failed to register request\<close> and \<open>API error\<close>
  never do, nor does \<open>Timeout period should be longer than batch timout, ...\<close> when the
  printed duration has no letter \<open>t\<close>; an error returned by \<open>SendF\<close> gives 408 exactly
  when its own message contains \<open>timeout\<close>.
\<close>

theorem RootHandler_error_status:
  assumes "marshal j = Some b" and "submit (Bytes b) = Done (Inl e)"
  shows "RootHandler fmtDuration backendAddr ''POST'' (Some j) marshal submit =
           Done (HttpError (Error fmtDuration e)
                   (if Contains (Error fmtDuration e) ''timeout'' then 408 else 400))
       \<and> Contains (Error fmtDuration (ErrRequestTimeout d)) ''timeout''
       \<and> \<not> Contains (Error fmtDuration ErrNilRequest) ''timeout''
       \<and> \<not> Contains (Error fmtDuration ErrRegisterFailed) ''timeout''
       \<and> \<not> Contains (Error fmtDuration ErrAPI) ''timeout''
       \<and> Contains (Error fmtDuration (ErrForeign m)) ''timeout'' = Contains m ''timeout''
       \<and> (CHR ''t'' \<notin> set (fmtDuration d) \<longrightarrow>
            \<not> Contains (Error fmtDuration (ErrTimeoutTooShort d)) ''timeout'')"
proof -
  have 1: "RootHandler fmtDuration backendAddr ''POST'' (Some j) marshal submit =
           Done (HttpError (Error fmtDuration e)
                   (if Contains (Error fmtDuration e) ''timeout'' then 408 else 400))"
    using assms by (simp add: RootHandler_def Let_def)
  have 2: "Contains (Error fmtDuration (ErrRequestTimeout d)) ''timeout''"
    unfolding Error.simps by (rule Contains_append) simp
  have 3: "\<not> Contains (Error fmtDuration ErrNilRequest) ''timeout''"
    by simp
  have 4: "\<not> Contains (Error fmtDuration ErrRegisterFailed) ''timeout''" by simp
  have 5: "\<not> Contains (Error fmtDuration ErrAPI) ''timeout''" by simp
  have 6: "CHR ''t'' \<notin> set (fmtDuration d) \<Longrightarrow>
            \<not> Contains (Error fmtDuration (ErrTimeoutTooShort d)) ''timeout''"
    using no_t_no_timeout[of "fmtDuration d"] by simp
  from 1 2 3 4 5 6 show ?thesis by simp
qed

text \<open>
  C9 as stated fails: an error of the backend, fanned out by \<open>send\<close> to the caller, whose
  message contains \<open>timeout\<close> is answered with 408, though it is not the per-caller
  timeout.
\<close>

theorem RootHandler_backend_timeout:
  "ErrForeign ''dial tcp 10.0.0.1:80: i/o timeout'' \<noteq> ErrRequestTimeout 60000000000
   \<and> backendDown (Bytes ''1'') = Done (Inl (ErrForeign ''dial tcp 10.0.0.1:80: i/o timeout''))
   \<and> RootHandler minuteText ''http://backend'' ''POST'' (Some ''1'') marshalAny backendDown
       = Done (HttpError ''dial tcp 10.0.0.1:80: i/o timeout'' 408)"
  by (simp add: RootHandler_def backendDown_def marshalAny_def)

theorem RootHandler_error_status_witness:
  "marshalAny ''1'' = Some ''1''
   \<and> backendDown (Bytes ''1'') = Done (Inl (ErrForeign ''dial tcp 10.0.0.1:80: i/o timeout''))
   \<and> CHR ''t'' \<notin> set (minuteText 60000000000)
   \<and> \<not> Contains (Error minuteText (ErrTimeoutTooShort 60000000000)) ''timeout''
   \<and> RootHandler minuteText ''http://backend'' ''POST'' (Some ''1'') marshalAny backendDown
       = Done (HttpError ''dial tcp 10.0.0.1:80: i/o timeout'' 408)"
proof -
  have a: "marshalAny ''1'' = Some ''1''" by (simp add: marshalAny_def)
  have b: "backendDown (Bytes ''1'') = Done (Inl (ErrForeign ''dial tcp 10.0.0.1:80: i/o timeout''))"
    by (simp add: backendDown_def)
  have c: "CHR ''t'' \<notin> set (minuteText 60000000000)" by (simp add: minuteText_def)
  from RootHandler_error_status[of marshalAny "''1''" "''1''" backendDown _ minuteText
        "''http://backend''" 60000000000, OF a b] a b c
  show ?thesis by simp
qed

subsection \<open>The invariant of a run\<close>

lemma chan_send_Done:
  "chan_send c v chs = Done chs1 \<Longrightarrow>
     c < length chs \<and> \<not> closed (chs ! c) \<and> buf (chs ! c) = None
     \<and> chs1 = chs[c := (chs ! c)\<lparr>buf := Some v, sent := sent (chs ! c) @ [v]\<rparr>]"
  by (auto simp: chan_send_def split: if_splits)

lemma chan_send_Block:
  "chan_send c v chs = Block \<Longrightarrow> length chs \<le> c \<or> buf (chs ! c) \<noteq> None"
  by (auto simp: chan_send_def split: if_splits)

lemma chan_close_Inr:
  "chan_close c chs = Inr chs2 \<Longrightarrow>
     c < length chs \<and> chs2 = chs[c := (chs ! c)\<lparr>closed := True\<rparr>]"
  by (auto simp: chan_close_def split: if_splits)

lemma closeAll_result:
  "closeAll subs n chs = (p, chs') \<Longrightarrow>
     length chs' = length chs
   \<and> (\<forall>c. sent (chs' ! c) = sent (chs ! c) \<and> buf (chs' ! c) = buf (chs ! c)
          \<and> (closed (chs ! c) \<longrightarrow> closed (chs' ! c)))"
proof (induction n arbitrary: chs)
  case 0
  then show ?case by simp
next
  case (Suc i)
  show ?case
  proof (cases "chan_close (respCh (subs ! i)) chs")
    case (Inl q)
    with Suc.prems show ?thesis by simp
  next
    case (Inr chs2)
    note s2 = chan_close_Inr[OF Inr]
    from Inr Suc.prems have "closeAll subs i chs2 = (p, chs')" by simp
    from Suc.IH[OF this] s2 show ?thesis
      by (auto simp: nth_list_update)
  qed
qed

lemma live_update [simp]:
  "live (s\<lparr>timers := ts\<rparr>) = live s" "live (s\<lparr>chans := chs\<rparr>) = live s"
  "live (s\<lparr>parentDone := d\<rparr>) = live s" "live (s\<lparr>running := r\<rparr>) = live s"
  "live (s\<lparr>calls := ks\<rparr>) = live s" "live (s\<lparr>crashed := p\<rparr>) = live s"
  by (simp_all add: live_def)

lemma sendCurBatch_live [simp]:
  "live (sendCurBatch s) = live s" "chans (sendCurBatch s) = chans s"
  "calls (sendCurBatch s) = calls s" "crashed (sendCurBatch s) = crashed s"
  "curBatch (sendCurBatch s) = None" "timers (sendCurBatch s) = timers s"
  by (auto simp: sendCurBatch_def live_def split: option.splits)

lemma sendCurBatchWithSafety_live [simp]:
  "live (sendCurBatchWithSafety s) = live s" "chans (sendCurBatchWithSafety s) = chans s"
  "calls (sendCurBatchWithSafety s) = calls s"
  "crashed (sendCurBatchWithSafety s) = crashed s"
  by (auto simp: sendCurBatchWithSafety_def live_def split: option.splits)

lemma inv_cong:
  "live s' = live s \<Longrightarrow> calls s' = calls s \<Longrightarrow> chans s' = chans s \<Longrightarrow> inv cfg s' = inv cfg s"
  by (simp add: inv_def waiting_def served_def)

lemma sized_cong:
  "live s' = live s \<Longrightarrow> calls s' = calls s \<Longrightarrow> sized cfg s' = sized cfg s"
  by (simp add: sized_def)

lemma registerRequest_effect:
  assumes "s' = snd (registerRequest cfg x s)"
    and "sub = \<lparr>singleRequestBody = x, respCh = length (chans s)\<rparr>"
  shows "chans s' = chans s @ [\<lparr>buf = None, closed = False, sent = []\<rparr>]"
    and "calls s' = calls s" and "crashed s' = crashed s"
    and "waiting s' = waiting s @ [sub]"
    and "\<forall>b \<in> set (live s').
           b \<in> set (live s)
         \<or> (\<exists>cur \<in> set (live s). int (length (body cur)) < MaxBatchSize cfg
              \<and> b = cur\<lparr>body := body cur @ [x], subscribers := subscribers cur @ [sub]\<rparr>)
         \<or> (body b = [x] \<and> subscribers b = [sub])"
  using assms
  by (auto simp: registerRequest_def Let_def createBatch_def live_def waiting_def
        sendCurBatch_def split: option.splits if_splits)

lemma invD:
  assumes "inv cfg s"
  shows "mset (map respCh (waiting s @ served s)) = mset [0..<length (chans s)]"
    and "\<forall>b \<in> set (live s). body b = map singleRequestBody (subscribers b)"
    and "\<forall>i < length (calls s). delivered cfg (chans s) i (calls s ! i)"
    and "\<forall>u \<in> set (waiting s). untouched (chans s) u"
  using assms unfolding inv_def by blast+

lemma invI:
  assumes "mset (map respCh (waiting s @ served s)) = mset [0..<length (chans s)]"
    and "\<forall>b \<in> set (live s). body b = map singleRequestBody (subscribers b)"
    and "\<forall>i < length (calls s). delivered cfg (chans s) i (calls s ! i)"
    and "\<forall>u \<in> set (waiting s). untouched (chans s) u"
  shows "inv cfg s"
  using assms unfolding inv_def by blast

lemma inv_set:
  assumes "inv cfg s"
  shows "set (map respCh (waiting s @ served s)) = {0..<length (chans s)}"
    and "distinct (map respCh (waiting s @ served s))"
proof -
  note m = invD(1)[OF assms]
  from mset_eq_setD[OF m] show "set (map respCh (waiting s @ served s)) = {0..<length (chans s)}"
    by simp
  from mset_eq_imp_distinct_iff[OF m] show "distinct (map respCh (waiting s @ served s))"
    by simp
qed

lemma inv_range:
  assumes "inv cfg s" "u \<in> set (waiting s) \<union> set (served s)"
  shows "respCh u < length (chans s)"
proof -
  from assms(2) have "respCh u \<in> set (map respCh (waiting s @ served s))" by auto
  with inv_set(1)[OF assms(1)] show ?thesis by simp
qed

lemma served_nth:
  "i < length (calls s) \<Longrightarrow> j < length (notified (calls s ! i)) \<Longrightarrow>
     notified (calls s ! i) ! j \<in> set (served s)"
  unfolding served_def set_concat by (auto intro!: bexI[of _ "calls s ! i"])

lemma deliveredD:
  assumes "delivered cfg chs i k"
  shows "sentBatch k = map singleRequestBody (notified k)"
    and "returned k = SendF cfg i (sentBatch k)"
    and "pending k \<le> length (notified k)"
    and "\<And>j. j < pending k \<Longrightarrow> untouched chs (notified k ! j)"
    and "\<And>j. j < length (notified k) \<Longrightarrow> pending k \<le> j \<Longrightarrow>
           \<exists>v. response (length (sentBatch k)) (returned k) j = Inr v
              \<and> processed (chs ! respCh (notified k ! j)) v"
  using assms unfolding delivered_def by blast+

lemma deliveredI:
  assumes "sentBatch k = map singleRequestBody (notified k)"
    and "returned k = SendF cfg i (sentBatch k)"
    and "pending k \<le> length (notified k)"
    and "\<And>j. j < pending k \<Longrightarrow> untouched chs (notified k ! j)"
    and "\<And>j. j < length (notified k) \<Longrightarrow> pending k \<le> j \<Longrightarrow>
           \<exists>v. response (length (sentBatch k)) (returned k) j = Inr v
              \<and> processed (chs ! respCh (notified k ! j)) v"
  shows "delivered cfg chs i k"
  using assms unfolding delivered_def by blast

lemma delivered_frame:
  assumes d: "delivered cfg chs i k"
    and f: "\<And>j. j < length (notified k) \<Longrightarrow>
              chs' ! respCh (notified k ! j) = chs ! respCh (notified k ! j)"
  shows "delivered cfg chs' i k"
proof (rule deliveredI)
  note D = deliveredD[OF d]
  show "sentBatch k = map singleRequestBody (notified k)" by (rule D(1))
  show "returned k = SendF cfg i (sentBatch k)" by (rule D(2))
  show "pending k \<le> length (notified k)" by (rule D(3))
  show "untouched chs' (notified k ! j)" if "j < pending k" for j
  proof -
    from that D(3) have "j < length (notified k)" by simp
    from f[OF this] D(4)[OF that] show ?thesis by (simp add: untouched_def)
  qed
  show "\<exists>v. response (length (sentBatch k)) (returned k) j = Inr v
              \<and> processed (chs' ! respCh (notified k ! j)) v"
    if "j < length (notified k)" "pending k \<le> j" for j
    using D(5)[OF that] f[OF that(1)] by simp
qed

lemma settlesD:
  "settles chs chs' \<Longrightarrow>
     sent (chs' ! c) = sent (chs ! c) \<and> (closed (chs ! c) \<longrightarrow> closed (chs' ! c))
     \<and> (buf (chs' ! c) = buf (chs ! c) \<or> buf (chs' ! c) = None)"
  by (simp add: settles_def)

lemma processed_settles: "processed (chs ! c) v \<Longrightarrow> settles chs chs' \<Longrightarrow> processed (chs' ! c) v"
  using settlesD[of chs chs' c] by (auto simp: processed_def)

lemma untouched_settles: "untouched chs u \<Longrightarrow> settles chs chs' \<Longrightarrow> untouched chs' u"
  using settlesD[of chs chs' "respCh u"] by (auto simp: untouched_def)

lemma delivered_settles:
  assumes d: "delivered cfg chs i k" and f: "settles chs chs'"
  shows "delivered cfg chs' i k"
proof (rule deliveredI)
  note D = deliveredD[OF d]
  show "sentBatch k = map singleRequestBody (notified k)" by (rule D(1))
  show "returned k = SendF cfg i (sentBatch k)" by (rule D(2))
  show "pending k \<le> length (notified k)" by (rule D(3))
  show "untouched chs' (notified k ! j)" if "j < pending k" for j
    using D(4)[OF that] f by (rule untouched_settles)
  show "\<exists>v. response (length (sentBatch k)) (returned k) j = Inr v
              \<and> processed (chs' ! respCh (notified k ! j)) v"
    if "j < length (notified k)" "pending k \<le> j" for j
    using D(5)[OF that] processed_settles[OF _ f] by blast
qed

lemma inv_settles:
  assumes "inv cfg s" "settles (chans s) (chans s')" "live s' = live s" "calls s' = calls s"
  shows "inv cfg s'"
proof (rule invI)
  note I = invD[OF assms(1)]
  have w: "waiting s' = waiting s" "served s' = served s"
    using assms(3,4) by (simp_all add: waiting_def served_def)
  have len: "length (chans s') = length (chans s)" using assms(2) by (simp add: settles_def)
  show "mset (map respCh (waiting s' @ served s')) = mset [0..<length (chans s')]"
    using I(1) w len by simp
  show "\<forall>b\<in>set (live s'). body b = map singleRequestBody (subscribers b)"
    using I(2) assms(3) by simp
  show "\<forall>i<length (calls s'). delivered cfg (chans s') i (calls s' ! i)"
    using I(3) assms(4) delivered_settles[OF _ assms(2)] by simp
  show "\<forall>u\<in>set (waiting s'). untouched (chans s') u"
    using I(4) w untouched_settles[OF _ assms(2)] by simp
qed

lemma inv_registerRequest:
  assumes "inv cfg s"
  shows "inv cfg (snd (registerRequest cfg x s))"
proof -
  define s' where "s' = snd (registerRequest cfg x s)"
  define sub where "sub = \<lparr>singleRequestBody = x, respCh = length (chans s)\<rparr>"
  note eff = registerRequest_effect[OF s'_def sub_def]
  note rng = inv_range[OF assms]
  note I1 = invD(1)[OF assms] and I2 = invD(2)[OF assms]
    and I3 = invD(3)[OF assms] and I4 = invD(4)[OF assms]
  have served': "served s' = served s" using eff(2) by (simp add: served_def)
  have J1: "mset (map respCh (waiting s' @ served s')) = mset [0..<length (chans s')]"
  proof -
    have "mset (map respCh (waiting s' @ served s'))
        = mset (map respCh (waiting s @ served s)) + {#length (chans s)#}"
      by (simp add: eff(4) served' sub_def)
    also have "\<dots> = mset [0..<length (chans s)] + {#length (chans s)#}"
      by (simp only: I1)
    also have "\<dots> = mset [0..<length (chans s')]"
      by (simp add: eff(1))
    finally show ?thesis .
  qed
  have J2: "\<forall>b \<in> set (live s'). body b = map singleRequestBody (subscribers b)"
  proof
    fix b assume "b \<in> set (live s')"
    with eff(5) consider "b \<in> set (live s)"
      | cur where "cur \<in> set (live s)"
          "b = cur\<lparr>body := body cur @ [x], subscribers := subscribers cur @ [sub]\<rparr>"
      | "body b = [x]" "subscribers b = [sub]"
      by blast
    then show "body b = map singleRequestBody (subscribers b)"
    proof cases
      case 1
      with I2 show ?thesis by blast
    next
      case 2
      with I2 have "body cur = map singleRequestBody (subscribers cur)" by blast
      with 2 show ?thesis by (simp add: sub_def)
    next
      case 3
      then show ?thesis by (simp add: sub_def)
    qed
  qed
  have J3: "\<forall>i < length (calls s'). delivered cfg (chans s') i (calls s' ! i)"
  proof (intro allI impI)
    fix i assume i: "i < length (calls s')"
    then have i': "i < length (calls s)" using eff(2) by simp
    have fr: "\<And>j. j < length (notified (calls s ! i)) \<Longrightarrow>
            chans s' ! respCh (notified (calls s ! i) ! j) = chans s ! respCh (notified (calls s ! i) ! j)"
      using rng served_nth[OF i'] eff(1) by (simp add: nth_append)
    from I3 i' have "delivered cfg (chans s) i (calls s ! i)" by blast
    then have "delivered cfg (chans s') i (calls s ! i)"
      by (rule delivered_frame) (rule fr)
    then show "delivered cfg (chans s') i (calls s' ! i)" using eff(2) by simp
  qed
  have J4: "\<forall>u \<in> set (waiting s'). untouched (chans s') u"
  proof
    fix u assume "u \<in> set (waiting s')"
    then consider "u \<in> set (waiting s)" | "u = sub" using eff(4) by auto
    then show "untouched (chans s') u"
    proof cases
      case 1
      with rng have "respCh u < length (chans s)" by simp
      with 1 I4 eff(1) show ?thesis by (simp add: nth_append untouched_def)
    next
      case 2
      then show ?thesis using eff(1) by (simp add: sub_def untouched_def)
    qed
  qed
  from J1 J2 J3 J4 show ?thesis unfolding s'_def[symmetric] by (rule invI)
qed

lemma send_view:
  "live (send cfg b s) = live s" "chans (send cfg b s) = chans s"
  "calls (send cfg b s) =
     calls s @ [\<lparr>sentBatch = body b, notified = subscribers b,
                 returned = SendF cfg (length (calls s)) (body b),
                 pending = length (subscribers b)\<rparr>]"
  by (auto simp: send_def Let_def live_def split: option.splits prod.splits)

lemma distinct_nth_inj:
  "distinct (map f xs) \<Longrightarrow> i < length xs \<Longrightarrow> j < length xs \<Longrightarrow> f (xs ! i) = f (xs ! j) \<Longrightarrow> i = j"
  by (metis distinct_conv_nth length_map nth_map)

lemma concat_index_unique:
  "distinct (map f (concat xss)) \<Longrightarrow> i < length xss \<Longrightarrow> i' < length xss \<Longrightarrow>
   a \<in> set (xss ! i) \<Longrightarrow> a' \<in> set (xss ! i') \<Longrightarrow> f a = f a' \<Longrightarrow> i = i'"
proof (induction xss arbitrary: i i')
  case Nil
  then show ?case by simp
next
  case (Cons xs xss)
  from Cons.prems(1) have d: "distinct (map f (concat xss))"
    and dis: "f ` set xs \<inter> f ` set (concat xss) = {}" by auto
  show ?case
  proof (cases i)
    case 0
    show ?thesis
    proof (cases i')
      case 0
      with \<open>i = 0\<close> show ?thesis by simp
    next
      case (Suc n)
      with Cons.prems have "a' \<in> set (concat xss)" by auto
      moreover from \<open>i = 0\<close> Cons.prems have "a \<in> set xs" by simp
      ultimately show ?thesis using dis Cons.prems(6) by (metis IntI empty_iff imageI)
    qed
  next
    case (Suc m)
    show ?thesis
    proof (cases i')
      case 0
      from Suc Cons.prems have "a \<in> set (concat xss)" by auto
      moreover from 0 Cons.prems have "a' \<in> set xs" by simp
      ultimately show ?thesis using dis Cons.prems(6) by (metis IntI empty_iff imageI)
    next
      case (Suc n)
      with \<open>i = Suc m\<close> Cons.prems Cons.IH[OF d, of m n] show ?thesis by simp
    qed
  qed
qed

lemma distinct_concat_nth:
  "distinct (map f (concat xss)) \<Longrightarrow> i < length xss \<Longrightarrow> distinct (map f (xss ! i))"
proof (induction xss arbitrary: i)
  case Nil
  then show ?case by simp
next
  case (Cons xs xss)
  then show ?case by (cases i) auto
qed

lemma served_pos_unique:
  assumes "inv cfg s"
    and "i1 < length (calls s)" "j1 < length (notified (calls s ! i1))"
    and "i2 < length (calls s)" "j2 < length (notified (calls s ! i2))"
    and "respCh (notified (calls s ! i1) ! j1) = respCh (notified (calls s ! i2) ! j2)"
  shows "i1 = i2 \<and> j1 = j2"
proof -
  have d: "distinct (map respCh (concat (map notified (calls s))))"
    using inv_set(2)[OF assms(1)] by (simp add: served_def)
  have i: "i1 = i2"
    using assms(2-6)
    by (intro concat_index_unique[OF d, of i1 i2 "notified (calls s ! i1) ! j1"
          "notified (calls s ! i2) ! j2"]) simp_all
  have "distinct (map respCh (map notified (calls s) ! i1))"
    using assms(2) by (intro distinct_concat_nth[OF d]) simp
  then have "distinct (map respCh (notified (calls s ! i1)))" using assms(2) by simp
  from distinct_nth_inj[OF this assms(3)] assms(5,6) i have "j1 = j2" by simp
  with i show ?thesis by simp
qed

lemma served_not_waiting:
  assumes "inv cfg s" "u \<in> set (served s)" "w \<in> set (waiting s)"
  shows "respCh w \<noteq> respCh u"
proof -
  from inv_set(2)[OF assms(1)]
  have "respCh ` set (waiting s) \<inter> respCh ` set (served s) = {}" by simp
  with assms(2,3) show ?thesis by blast
qed

lemma inv_send:
  assumes "inv cfg s" "k < length (goroutines s)"
  shows "inv cfg (send cfg (goroutines s ! k)
                   (s\<lparr>goroutines := take k (goroutines s) @ drop (Suc k) (goroutines s)\<rparr>))"
proof -
  define b where "b = goroutines s ! k"
  define s0 where "s0 = s\<lparr>goroutines := take k (goroutines s) @ drop (Suc k) (goroutines s)\<rparr>"
  define A where "A = concat (map subscribers (take k (goroutines s)))"
  define C where "C = concat (map subscribers (drop (Suc k) (goroutines s)
                        @ (case curBatch s of None \<Rightarrow> [] | Some c \<Rightarrow> [c])))"
  define B where "B = subscribers b"
  define s' where "s' = send cfg b s0"
  define new where "new = \<lparr>sentBatch = body b, notified = B,
                 returned = SendF cfg (length (calls s)) (body b), pending = length B\<rparr>"
  note I = invD[OF assms(1)]
  have gs: "goroutines s = take k (goroutines s) @ b # drop (Suc k) (goroutines s)"
    unfolding b_def using assms(2) by (rule id_take_nth_drop)
  have w: "waiting s = A @ B @ C"
    unfolding waiting_def live_def A_def B_def C_def by (subst gs) simp
  have w0: "waiting s0 = A @ C"
    unfolding waiting_def live_def A_def C_def s0_def by simp
  have b_live: "b \<in> set (live s)" unfolding live_def by (subst gs) simp
  have live0: "set (live s0) \<subseteq> set (live s)"
    unfolding live_def s0_def using set_take_subset[of k "goroutines s"]
      set_drop_subset[of "Suc k" "goroutines s"] by auto
  have s': "live s' = live s0" "chans s' = chans s" "calls s' = calls s @ [new]"
    unfolding s'_def new_def B_def by (simp_all add: send_view s0_def)
  have ws': "waiting s' = A @ C" "served s' = served s @ B"
    using s' w0 by (simp_all add: waiting_def served_def new_def)
  have "inv cfg s'"
  proof (rule invI)
    have "mset (map respCh (waiting s' @ served s')) = mset (map respCh (waiting s @ served s))"
      by (simp add: ws' w)
    then show "mset (map respCh (waiting s' @ served s')) = mset [0..<length (chans s')]"
      using I(1) s'(2) by simp
    show "\<forall>b\<in>set (live s'). body b = map singleRequestBody (subscribers b)"
      using I(2) live0 s'(1) by auto
    show "\<forall>i<length (calls s'). delivered cfg (chans s') i (calls s' ! i)"
    proof (intro allI impI)
      fix i assume "i < length (calls s')"
      then consider "i < length (calls s)" | "i = length (calls s)" using s'(3) by force
      then show "delivered cfg (chans s') i (calls s' ! i)"
      proof cases
        case 1
        with I(3) have "delivered cfg (chans s) i (calls s ! i)" by blast
        with 1 show ?thesis by (simp add: s' nth_append)
      next
        case 2
        have bb: "body b = map singleRequestBody B" using I(2) b_live by (simp add: B_def)
        have "delivered cfg (chans s) (length (calls s)) new"
        proof (rule deliveredI)
          show "sentBatch new = map singleRequestBody (notified new)"
            using bb by (simp add: new_def)
          show "returned new = SendF cfg (length (calls s)) (sentBatch new)"
            by (simp add: new_def)
          show "pending new \<le> length (notified new)" by (simp add: new_def)
          show "untouched (chans s) (notified new ! j)" if "j < pending new" for j
          proof -
            from that have "B ! j \<in> set (waiting s)" using w by (simp add: new_def)
            with I(4) show ?thesis by (simp add: new_def)
          qed
          show "\<exists>v. response (length (sentBatch new)) (returned new) j = Inr v
              \<and> processed (chans s ! respCh (notified new ! j)) v"
            if "j < length (notified new)" "pending new \<le> j" for j
            using that by (simp add: new_def)
        qed
        with 2 show ?thesis by (simp add: s')
      qed
    qed
    show "\<forall>u\<in>set (waiting s'). untouched (chans s') u"
      using I(4) ws' w s'(2) by auto
  qed
  then show ?thesis by (simp add: s'_def b_def s0_def)
qed

lemma served_update:
  "k < length (calls s) \<Longrightarrow>
   served (s\<lparr>chans := chs, calls := (calls s)[k := (calls s ! k)\<lparr>pending := i\<rparr>]\<rparr>) = served s"
proof -
  assume k: "k < length (calls s)"
  have "map notified ((calls s)[k := (calls s ! k)\<lparr>pending := i\<rparr>]) = map notified (calls s)"
    by (simp add: map_update list_update_same_conv k)
  then show ?thesis by (simp add: served_def)
qed

lemma inv_publish:
  assumes iv: "inv cfg s"
    and k: "k < length (calls s)"
    and p: "pending (calls s ! k) = Suc i"
    and r: "response (length (sentBatch (calls s ! k))) (returned (calls s ! k)) i = Inr r"
    and snd: "chan_send (respCh (notified (calls s ! k) ! i)) r (chans s) = Done chs1"
  shows "\<exists>chs2. chan_close (respCh (notified (calls s ! k) ! i)) chs1 = Inr chs2
           \<and> inv cfg (s\<lparr>chans := chs2, calls := (calls s)[k := (calls s ! k)\<lparr>pending := i\<rparr>]\<rparr>)"
proof -
  let ?c = "calls s ! k"
  let ?u = "notified ?c ! i"
  let ?ch = "respCh ?u"
  note I = invD[OF iv]
  from I(3) k have dl: "delivered cfg (chans s) k ?c" by blast
  note D = deliveredD[OF dl]
  have i: "i < length (notified ?c)" using D(3) p by simp
  have ut: "untouched (chans s) ?u" using D(4)[of i] p by simp
  note s1 = chan_send_Done[OF snd]
  define chs2 where "chs2 = chs1[?ch := (chs1 ! ?ch)\<lparr>closed := True\<rparr>]"
  have cl: "chan_close ?ch chs1 = Inr chs2"
    using s1 by (simp add: chan_close_def chs2_def)
  have len2: "length chs2 = length (chans s)" using s1 by (simp add: chs2_def)
  have at: "processed (chs2 ! ?ch) r"
    using s1 ut by (simp add: chs2_def processed_def untouched_def)
  have other: "chs2 ! c' = chans s ! c'" if "c' \<noteq> ?ch" for c'
    using s1 that by (simp add: chs2_def)
  define s' where "s' = s\<lparr>chans := chs2, calls := (calls s)[k := ?c\<lparr>pending := i\<rparr>]\<rparr>"
  have sv: "served s' = served s" unfolding s'_def using k by (rule served_update)
  have wt: "waiting s' = waiting s" by (simp add: s'_def waiting_def)
  have u_served: "?u \<in> set (served s)" using k i by (rule served_nth)
  have "inv cfg s'"
  proof (rule invI)
    show "mset (map respCh (waiting s' @ served s')) = mset [0..<length (chans s')]"
      using I(1) sv wt len2 by (simp add: s'_def)
    show "\<forall>b\<in>set (live s'). body b = map singleRequestBody (subscribers b)"
      using I(2) by (simp add: s'_def)
    show "\<forall>n<length (calls s'). delivered cfg (chans s') n (calls s' ! n)"
    proof (intro allI impI)
      fix n assume "n < length (calls s')"
      then have n: "n < length (calls s)" by (simp add: s'_def)
      show "delivered cfg (chans s') n (calls s' ! n)"
      proof (cases "n = k")
        case True
        have "delivered cfg chs2 k (?c\<lparr>pending := i\<rparr>)"
        proof (rule deliveredI)
          show "sentBatch (?c\<lparr>pending := i\<rparr>) = map singleRequestBody (notified (?c\<lparr>pending := i\<rparr>))"
            using D(1) by simp
          show "returned (?c\<lparr>pending := i\<rparr>) = SendF cfg k (sentBatch (?c\<lparr>pending := i\<rparr>))"
            using D(2) by simp
          show "pending (?c\<lparr>pending := i\<rparr>) \<le> length (notified (?c\<lparr>pending := i\<rparr>))"
            using i by simp
          show "untouched chs2 (notified (?c\<lparr>pending := i\<rparr>) ! j)"
            if "j < pending (?c\<lparr>pending := i\<rparr>)" for j
          proof -
            from that have j: "j < i" by simp
            then have "j < pending ?c" using p by simp
            from D(4)[OF this] have u: "untouched (chans s) (notified ?c ! j)" .
            have "respCh (notified ?c ! j) \<noteq> ?ch"
            proof
              assume "respCh (notified ?c ! j) = ?ch"
              with served_pos_unique[OF iv k _ k i, of j] j i have "j = i" by simp
              with j show False by simp
            qed
            from other[OF this] u show ?thesis by (simp add: untouched_def)
          qed
          show "\<exists>v. response (length (sentBatch (?c\<lparr>pending := i\<rparr>)))
                      (returned (?c\<lparr>pending := i\<rparr>)) j = Inr v
              \<and> processed (chs2 ! respCh (notified (?c\<lparr>pending := i\<rparr>) ! j)) v"
            if "j < length (notified (?c\<lparr>pending := i\<rparr>))" "pending (?c\<lparr>pending := i\<rparr>) \<le> j"
            for j
          proof (cases "j = i")
            case True
            with r at show ?thesis by simp
          next
            case False
            with that have j: "j < length (notified ?c)" "pending ?c \<le> j" using p by simp_all
            from D(5)[OF this] obtain v where
              v: "response (length (sentBatch ?c)) (returned ?c) j = Inr v"
              "processed (chans s ! respCh (notified ?c ! j)) v" by blast
            have "respCh (notified ?c ! j) \<noteq> ?ch"
            proof
              assume "respCh (notified ?c ! j) = ?ch"
              with served_pos_unique[OF iv k j(1) k i] False show False by simp
            qed
            from other[OF this] v show ?thesis by simp
          qed
        qed
        with True k show ?thesis by (simp add: s'_def)
      next
        case False
        from I(3) n have dn: "delivered cfg (chans s) n (calls s ! n)" by blast
        have "delivered cfg chs2 n (calls s ! n)"
        proof (rule delivered_frame[OF dn])
          fix j assume j: "j < length (notified (calls s ! n))"
          have "respCh (notified (calls s ! n) ! j) \<noteq> ?ch"
          proof
            assume "respCh (notified (calls s ! n) ! j) = ?ch"
            with served_pos_unique[OF iv n j k i] False show False by simp
          qed
          then show "chs2 ! respCh (notified (calls s ! n) ! j)
                     = chans s ! respCh (notified (calls s ! n) ! j)" by (rule other)
        qed
        with False show ?thesis by (simp add: s'_def)
      qed
    qed
    show "\<forall>w\<in>set (waiting s'). untouched (chans s') w"
    proof
      fix w assume "w \<in> set (waiting s')"
      then have w: "w \<in> set (waiting s)" by (simp add: wt)
      from served_not_waiting[OF iv u_served w] have "respCh w \<noteq> ?ch" .
      from other[OF this] I(4) w show "untouched (chans s') w"
        by (simp add: untouched_def s'_def)
    qed
  qed
  with cl show ?thesis unfolding s'_def by blast
qed

lemma inv_sendLoop:
  assumes "inv cfg s"
  shows "inv cfg (sendLoop k s)"
proof (cases "k < length (calls s)")
  case False
  with assms show ?thesis by (simp add: sendLoop_def)
next
  case k: True
  let ?c = "calls s ! k"
  show ?thesis
  proof (cases "pending ?c")
    case 0
    with assms k show ?thesis by (simp add: sendLoop_def)
  next
    case (Suc i)
    show ?thesis
    proof (cases "response (length (sentBatch ?c)) (returned ?c) i")
      case (Inl p)
      have "inv cfg (s\<lparr>crashed := Some p\<rparr>) = inv cfg s" by (rule inv_cong) simp_all
      with assms k Suc Inl show ?thesis by (simp add: sendLoop_def)
    next
      case (Inr r)
      show ?thesis
      proof (cases "chan_send (respCh (notified ?c ! i)) r (chans s)")
        case (Done chs1)
        from inv_publish[OF assms k Suc Inr Done] obtain chs2 where
          "chan_close (respCh (notified ?c ! i)) chs1 = Inr chs2"
          "inv cfg (s\<lparr>chans := chs2, calls := (calls s)[k := ?c\<lparr>pending := i\<rparr>]\<rparr>)"
          by blast
        with k Suc Inr Done show ?thesis by (simp add: sendLoop_def)
      next
        case (Panic p)
        have "inv cfg (s\<lparr>crashed := Some p\<rparr>) = inv cfg s" by (rule inv_cong) simp_all
        with assms k Suc Inr Panic show ?thesis by (simp add: sendLoop_def)
      next
        case Block
        with assms k Suc Inr show ?thesis by (simp add: sendLoop_def)
      qed
    qed
  qed
qed

lemma chan_recv_settles: "chan_recv c chs = Done (r, chs') \<Longrightarrow> settles chs chs'"
  by (auto simp: chan_recv_def settles_def nth_list_update split: if_splits option.splits)

lemma stop_result:
  "settles (chans s) (chans (stop s))" "live (stop s) = live s" "calls (stop s) = calls s"
proof -
  show "live (stop s) = live s" "calls (stop s) = calls s"
    by (auto simp: stop_def Let_def live_def split: option.splits prod.splits)
  show "settles (chans s) (chans (stop s))"
  proof (cases "curBatch s")
    case None
    then show ?thesis by (simp add: stop_def settles_def)
  next
    case (Some cur)
    obtain p chs' where c: "closeAll (subscribers cur) (length (subscribers cur)) (chans s) = (p, chs')"
      by (cases "closeAll (subscribers cur) (length (subscribers cur)) (chans s)") auto
    from closeAll_result[OF c] have "settles (chans s) chs'" by (simp add: settles_def)
    with Some c show ?thesis by (cases p) (auto simp: stop_def)
  qed
qed

lemma inv_init: "inv cfg (NewRequestBatcher cfg)"
  by (simp add: inv_def NewRequestBatcher_def waiting_def served_def live_def)

lemma SendRequestWithTimeout_state:
  "snd (SendRequestWithTimeout cfg newRequestBody timeout s) =
     (case newRequestBody of
        None \<Rightarrow> s
      | Some x \<Rightarrow> if timeout \<le> BatchTimeout cfg then s else snd (registerRequest cfg x s))"
  by (cases newRequestBody; cases "registerRequest cfg (the newRequestBody) s")
     (auto simp: SendRequestWithTimeout_def split: option.splits)

lemma inv_step:
  assumes "inv cfg s"
  shows "inv cfg (step cfg e s)"
proof (cases e)
  case (Call newRequestBody timeout)
  with assms inv_registerRequest[OF assms] show ?thesis
    by (simp add: SendRequestWithTimeout_state split: option.splits)
next
  case (Fire t)
  have "inv cfg (step cfg e s) = inv cfg s" unfolding Fire by (rule inv_cong) simp_all
  with assms show ?thesis by simp
next
  case (Callback t)
  have "inv cfg (step cfg e s) = inv cfg s" unfolding Callback by (rule inv_cong) simp_all
  with assms show ?thesis by simp
next
  case (Send k)
  with assms inv_send[OF assms, of k] show ?thesis by simp
next
  case (Publish k)
  with inv_sendLoop[OF assms, of k] show ?thesis by simp
next
  case (Receive c)
  show ?thesis
  proof (cases "chan_recv c (chans s)")
    case (Done rc)
    obtain r chs' where rc: "rc = (r, chs')" by (cases rc)
    from Done rc have "settles (chans s) chs'" by (auto dest: chan_recv_settles)
    then have "inv cfg (s\<lparr>chans := chs'\<rparr>)"
      by (intro inv_settles[OF assms]) simp_all
    with Done rc show ?thesis by (simp add: Receive)
  next
    case (Panic p)
    with assms show ?thesis by (simp add: Receive)
  next
    case Block
    with assms show ?thesis by (simp add: Receive)
  qed
next
  case Cancel
  have "inv cfg (step cfg e s) = inv cfg s" unfolding Cancel by (rule inv_cong) simp_all
  with assms show ?thesis by simp
next
  case Stop
  have "inv cfg (stop s)" using assms stop_result[of s] by (rule inv_settles)
  with assms show ?thesis by (simp add: Stop)
qed

lemma inv_exec: "inv cfg s \<Longrightarrow> inv cfg (exec cfg e s)"
  by (cases "crashed s") (simp_all add: exec_def inv_step)

lemma execs_Nil [simp]: "execs cfg [] s = s"
  by (simp add: execs_def)

lemma execs_Cons [simp]: "execs cfg (e # evs) s = execs cfg evs (exec cfg e s)"
  by (simp add: execs_def)

lemma execs_append: "execs cfg (evs @ evs') s = execs cfg evs' (execs cfg evs s)"
  by (simp add: execs_def)

lemma inv_execs: "inv cfg s \<Longrightarrow> inv cfg (execs cfg evs s)"
  by (induction evs arbitrary: s) (simp_all add: inv_exec)

lemma inv_run: "inv cfg (run cfg evs)"
  unfolding run_def by (rule inv_execs) (rule inv_init)

lemma sendLoop_view:
  "live (sendLoop k s) = live s"
  "map sentBatch (calls (sendLoop k s)) = map sentBatch (calls s)"
  "map notified (calls (sendLoop k s)) = map notified (calls s)"
  by (auto simp: sendLoop_def Let_def live_def map_update list_update_same_conv
        split: nat.splits sum.splits effect.splits)

lemma live_remove:
  "k < length (goroutines s) \<Longrightarrow>
   set (live (s\<lparr>goroutines := take k (goroutines s) @ drop (Suc k) (goroutines s)\<rparr>))
     \<subseteq> set (live s)"
  unfolding live_def using set_take_subset[of k "goroutines s"]
      set_drop_subset[of "Suc k" "goroutines s"] by auto

lemma sized_registerRequest:
  assumes "1 \<le> MaxBatchSize cfg" "sized cfg s"
  shows "sized cfg (snd (registerRequest cfg x s))"
proof -
  define s' where "s' = snd (registerRequest cfg x s)"
  define sub where "sub = \<lparr>singleRequestBody = x, respCh = length (chans s)\<rparr>"
  note eff = registerRequest_effect[OF s'_def sub_def]
  have "\<forall>b \<in> set (live s'). bounded (MaxBatchSize cfg) (body b) (subscribers b)"
  proof
    fix b assume "b \<in> set (live s')"
    with eff(5) consider "b \<in> set (live s)"
      | cur where "cur \<in> set (live s)" "int (length (body cur)) < MaxBatchSize cfg"
          "b = cur\<lparr>body := body cur @ [x], subscribers := subscribers cur @ [sub]\<rparr>"
      | "body b = [x]" "subscribers b = [sub]"
      by blast
    then show "bounded (MaxBatchSize cfg) (body b) (subscribers b)"
    proof cases
      case 1
      with assms(2) show ?thesis by (simp add: sized_def)
    next
      case 2
      with assms(2) have "bounded (MaxBatchSize cfg) (body cur) (subscribers cur)"
        by (simp add: sized_def)
      with 2 show ?thesis by (simp add: bounded_def)
    next
      case 3
      with assms(1) show ?thesis by (simp add: bounded_def)
    qed
  qed
  with assms(2) eff(2) show ?thesis unfolding s'_def[symmetric] by (simp add: sized_def)
qed

lemma sized_calls:
  "(\<forall>k \<in> set ks. bounded m (sentBatch k) (notified k))
     \<longleftrightarrow> list_all2 (bounded m) (map sentBatch ks) (map notified ks)"
  by (induction ks) auto

lemma sized_step:
  assumes "1 \<le> MaxBatchSize cfg" "sized cfg s"
  shows "sized cfg (step cfg e s)"
proof (cases e)
  case (Call newRequestBody timeout)
  with assms sized_registerRequest[OF assms] show ?thesis
    by (simp add: SendRequestWithTimeout_state split: option.splits)
next
  case (Fire t)
  have "sized cfg (step cfg e s) = sized cfg s" unfolding Fire by (rule sized_cong) simp_all
  with assms show ?thesis by simp
next
  case (Callback t)
  have "sized cfg (step cfg e s) = sized cfg s" unfolding Callback by (rule sized_cong) simp_all
  with assms show ?thesis by simp
next
  case (Send k)
  show ?thesis
  proof (cases "k < length (goroutines s)")
    case True
    then have "goroutines s ! k \<in> set (live s)" by (simp add: live_def)
    with assms(2) have "bounded (MaxBatchSize cfg) (body (goroutines s ! k))
                          (subscribers (goroutines s ! k))"
      by (simp add: sized_def)
    with assms(2) live_remove[OF True] True show ?thesis
      unfolding Send by (auto simp: sized_def send_view)
  next
    case False
    with assms show ?thesis by (simp add: Send)
  qed
next
  case (Publish k)
  from assms(2) show ?thesis
    unfolding Publish sized_def sized_calls by (simp add: sendLoop_view)
next
  case (Receive c)
  have "sized cfg (step cfg e s) = sized cfg s" unfolding Receive
    by (rule sized_cong) (simp_all split: effect.splits prod.splits)
  with assms show ?thesis by simp
next
  case Cancel
  have "sized cfg (step cfg e s) = sized cfg s" unfolding Cancel by (rule sized_cong) simp_all
  with assms show ?thesis by simp
next
  case Stop
  have "sized cfg (step cfg e s) = sized cfg s" unfolding Stop
    by (rule sized_cong) (simp_all add: stop_result)
  with assms show ?thesis by simp
qed

lemma sized_exec: "1 \<le> MaxBatchSize cfg \<Longrightarrow> sized cfg s \<Longrightarrow> sized cfg (exec cfg e s)"
  by (cases "crashed s") (simp_all add: exec_def sized_step)

lemma sized_execs: "1 \<le> MaxBatchSize cfg \<Longrightarrow> sized cfg s \<Longrightarrow> sized cfg (execs cfg evs s)"
  by (induction evs arbitrary: s) (simp_all add: sized_exec)

lemma sized_run: "1 \<le> MaxBatchSize cfg \<Longrightarrow> sized cfg (run cfg evs)"
  unfolding run_def
  by (rule sized_execs) (simp_all add: sized_def NewRequestBatcher_def live_def)

text \<open>
  C5. For a batcher constructed with \<open>MaxBatchSize\<close> at least one, in every run, every
  slice of request bodies that was passed to \<open>SendF\<close> has at least one and at most
  \<open>MaxBatchSize\<close> elements and is as long as the slice of the batch's subscribers; the
  same holds of every batch handed to a goroutine for dispatch, and of the open batch.
\<close>

theorem batch_sizes:
  assumes "1 \<le> MaxBatchSize cfg"
  shows "(\<forall>k \<in> set (calls (run cfg evs)).
            1 \<le> length (sentBatch k) \<and> int (length (sentBatch k)) \<le> MaxBatchSize cfg
          \<and> length (sentBatch k) = length (notified k))
       \<and> (\<forall>b \<in> set (goroutines (run cfg evs)).
            1 \<le> length (body b) \<and> int (length (body b)) \<le> MaxBatchSize cfg
          \<and> length (body b) = length (subscribers b))
       \<and> (\<forall>b. curBatch (run cfg evs) = Some b \<longrightarrow>
            1 \<le> length (body b) \<and> int (length (body b)) \<le> MaxBatchSize cfg
          \<and> length (body b) = length (subscribers b))"
proof -
  note z = sized_run[OF assms, of evs]
  have "bounded (MaxBatchSize cfg) (sentBatch k) (notified k)"
    if "k \<in> set (calls (run cfg evs))" for k
    using z that by (simp add: sized_def)
  moreover have "bounded (MaxBatchSize cfg) (body b) (subscribers b)"
    if "b \<in> set (goroutines (run cfg evs))" for b
    using z that by (simp add: sized_def live_def)
  moreover have "bounded (MaxBatchSize cfg) (body b) (subscribers b)"
    if "curBatch (run cfg evs) = Some b" for b
    using z that by (simp add: sized_def live_def)
  ultimately show ?thesis unfolding bounded_def by blast
qed

theorem batch_sizes_witness:
  "1 \<le> MaxBatchSize pairBatcher
   \<and> calls (run pairBatcher [Call (Some 7) 2000000, Call (Some 8) 2000000, Call (Some 9) 2000000, Send 0])
      = [\<lparr>sentBatch = [7, 8],
          notified = [\<lparr>singleRequestBody = 7, respCh = 0\<rparr>, \<lparr>singleRequestBody = 8, respCh = 1\<rparr>],
          returned = (Some [7, 8], None), pending = 2\<rparr>]
   \<and> 1 \<le> length [7::nat, 8] \<and> int (length [7::nat, 8]) \<le> MaxBatchSize pairBatcher"
proof -
  have h: "1 \<le> MaxBatchSize pairBatcher" by (simp add: pairBatcher_def)
  have c: "calls (run pairBatcher [Call (Some 7) 2000000, Call (Some 8) 2000000, Call (Some 9) 2000000, Send 0])
      = [\<lparr>sentBatch = [7, 8],
          notified = [\<lparr>singleRequestBody = 7, respCh = 0\<rparr>, \<lparr>singleRequestBody = 8, respCh = 1\<rparr>],
          returned = (Some [7, 8], None), pending = 2\<rparr>]"
    by (simp add: run_simps)
  from batch_sizes[OF h, of "[Call (Some 7) 2000000, Call (Some 8) 2000000, Call (Some 9) 2000000, Send 0]"]
  have "1 \<le> length [7::nat, 8] \<and> int (length [7::nat, 8]) \<le> MaxBatchSize pairBatcher"
    unfolding c by simp
  with h c show ?thesis by blast
qed

lemma waiting_cong: "live s' = live s \<Longrightarrow> waiting s' = waiting s"
  by (simp add: waiting_def)

lemma served_cong: "calls s' = calls s \<Longrightarrow> served s' = served s"
  by (simp add: served_def)

lemma subs_mono_step:
  "set (waiting s) \<union> set (served s) \<subseteq> set (waiting (step cfg e s)) \<union> set (served (step cfg e s))"
proof (cases e)
  case (Call newRequestBody timeout)
  have "set (waiting s) \<union> set (served s)
        \<subseteq> set (waiting (snd (registerRequest cfg x s))) \<union> set (served (snd (registerRequest cfg x s)))" for x
    using registerRequest_effect(2,4)[OF refl refl, of cfg x s]
    by (auto simp: served_def)
  then show ?thesis unfolding Call
    by (simp add: SendRequestWithTimeout_state split: option.splits)
next
  case (Fire t)
  have "waiting (step cfg e s) = waiting s" "served (step cfg e s) = served s"
    unfolding Fire by (rule waiting_cong served_cong; simp)+
  then show ?thesis by simp
next
  case (Callback t)
  have "waiting (step cfg e s) = waiting s" "served (step cfg e s) = served s"
    unfolding Callback by (rule waiting_cong served_cong; simp)+
  then show ?thesis by simp
next
  case (Send k)
  show ?thesis
  proof (cases "k < length (goroutines s)")
    case True
    define s0 where "s0 = s\<lparr>goroutines := take k (goroutines s) @ drop (Suc k) (goroutines s)\<rparr>"
    define b where "b = goroutines s ! k"
    have gs: "goroutines s = take k (goroutines s) @ b # drop (Suc k) (goroutines s)"
      unfolding b_def using True by (rule id_take_nth_drop)
    have "set (waiting s) = set (waiting s0) \<union> set (subscribers b)"
      unfolding waiting_def live_def s0_def by (subst gs) auto
    moreover have "waiting (send cfg b s0) = waiting s0"
      by (rule waiting_cong) (simp add: send_view)
    moreover have "served (send cfg b s0) = served s @ subscribers b"
      by (simp add: served_def send_view s0_def)
    ultimately show ?thesis using True unfolding Send by (auto simp: s0_def b_def)
  next
    case False
    then show ?thesis by (simp add: Send)
  qed
next
  case (Publish k)
  have "waiting (step cfg e s) = waiting s" "served (step cfg e s) = served s"
    unfolding Publish by (simp_all add: waiting_def served_def sendLoop_view)
  then show ?thesis by simp
next
  case (Receive c)
  have "waiting (step cfg e s) = waiting s" "served (step cfg e s) = served s"
    unfolding Receive by (rule waiting_cong served_cong; simp split: effect.splits prod.splits)+
  then show ?thesis by simp
next
  case Cancel
  have "waiting (step cfg e s) = waiting s" "served (step cfg e s) = served s"
    unfolding Cancel by (rule waiting_cong served_cong; simp)+
  then show ?thesis by simp
next
  case Stop
  have "waiting (step cfg e s) = waiting s" "served (step cfg e s) = served s"
    unfolding Stop by (rule waiting_cong served_cong; simp add: stop_result)+
  then show ?thesis by simp
qed

lemma subs_mono_execs:
  "set (waiting s) \<union> set (served s)
     \<subseteq> set (waiting (execs cfg evs s)) \<union> set (served (execs cfg evs s))"
proof (induction evs arbitrary: s)
  case Nil
  then show ?case by simp
next
  case (Cons e evs)
  have "set (waiting s) \<union> set (served s)
          \<subseteq> set (waiting (exec cfg e s)) \<union> set (served (exec cfg e s))"
    using subs_mono_step[of s cfg e] by (cases "crashed s") (simp_all add: exec_def)
  with Cons.IH[of "exec cfg e s"] show ?case by auto
qed

subsection \<open>Responses reach their callers\<close>

lemma awaitResponse_Done:
  assumes "awaitResponse timeout expired pick ch s = Done res"
  shows "(res = Inl (ErrRequestTimeout timeout) \<and> (expired \<or> parentDone s))
       \<or> (\<exists>r. buf (chans s ! ch) = Some r
              \<and> res = (case err r of Some e \<Rightarrow> Inl e | None \<Rightarrow> Inr (rbody r)))"
proof (cases "chan_recv ch (chans s)")
  case (Done rc)
  obtain resp chs where rc: "rc = (resp, chs)" by (cases rc)
  show ?thesis
  proof (cases resp)
    case None
    with assms Done rc show ?thesis
      by (auto simp: awaitResponse_def Let_def split: if_splits)
  next
    case (Some r)
    with Done rc have "buf (chans s ! ch) = Some r"
      by (simp add: chan_recv_def split: if_splits option.splits)
    with assms Done rc Some show ?thesis
      by (auto simp: awaitResponse_def Let_def split: if_splits option.splits)
  qed
next
  case (Panic p)
  with assms show ?thesis by (simp add: awaitResponse_def Let_def)
next
  case Block
  with assms show ?thesis by (auto simp: awaitResponse_def Let_def split: if_splits)
qed

lemma caller_served:
  assumes reg: "SendRequestWithTimeout cfg (Some x) timeout (run cfg evs) = (Inr ch, s1)"
    and s2: "s2 = execs cfg evs' s1"
    and got: "buf (chans s2 ! ch) = Some r"
  shows "inv cfg s2
       \<and> (\<exists>k j. k < length (calls s2) \<and> j < length (notified (calls s2 ! k))
            \<and> notified (calls s2 ! k) ! j = \<lparr>singleRequestBody = x, respCh = ch\<rparr>
            \<and> response (length (sentBatch (calls s2 ! k))) (returned (calls s2 ! k)) j = Inr r)"
proof -
  define sub where "sub = \<lparr>singleRequestBody = x, respCh = length (chans (run cfg evs))\<rparr>"
  from reg have s1: "s1 = snd (registerRequest cfg x (run cfg evs))"
    and ch: "ch = length (chans (run cfg evs))"
    by (auto simp: SendRequestWithTimeout_def split: if_splits prod.splits option.splits
          dest: registerRequest_result)
  have inv1: "inv cfg s1" unfolding s1 by (rule inv_registerRequest) (rule inv_run)
  then have inv2: "inv cfg s2" unfolding s2 by (rule inv_execs)
  note I = invD[OF inv2]
  have "sub \<in> set (waiting s1)"
    using registerRequest_effect(4)[OF s1 sub_def] by simp
  with subs_mono_execs[of s1 cfg evs'] have "sub \<in> set (waiting s2) \<union> set (served s2)"
    unfolding s2 by blast
  moreover have "sub \<notin> set (waiting s2)"
  proof
    assume "sub \<in> set (waiting s2)"
    with I(4) have "untouched (chans s2) sub" by blast
    with got show False by (simp add: untouched_def sub_def ch)
  qed
  ultimately have "sub \<in> set (served s2)" by blast
  then obtain ns where ns: "ns \<in> set (map notified (calls s2))" "sub \<in> set ns"
    unfolding served_def by auto
  then obtain k where k: "k < length (calls s2)" "ns = notified (calls s2 ! k)"
    by (auto simp: in_set_conv_nth)
  from ns(2) k(2) obtain j where j: "j < length (notified (calls s2 ! k))"
    "notified (calls s2 ! k) ! j = sub"
    by (auto simp: in_set_conv_nth)
  from I(3) k(1) have dl: "delivered cfg (chans s2) k (calls s2 ! k)" by blast
  have "\<not> j < pending (calls s2 ! k)"
  proof
    assume "j < pending (calls s2 ! k)"
    from deliveredD(4)[OF dl this] have "untouched (chans s2) sub" by (simp add: j(2))
    with got show False by (simp add: untouched_def sub_def ch)
  qed
  then have "pending (calls s2 ! k) \<le> j" by simp
  from deliveredD(5)[OF dl j(1) this]
  obtain v where v: "response (length (sentBatch (calls s2 ! k))) (returned (calls s2 ! k)) j = Inr v"
    "processed (chans s2 ! ch) v"
    by (auto simp: j(2) sub_def ch)
  with got have "v = r" by (simp add: processed_def)
  with v k j inv2 show ?thesis unfolding sub_def ch by blast
qed

lemma response_value:
  assumes "response n out j = Inr r" "err r = None"
  shows "\<exists>resp. out = (Some resp, None) \<and> length resp = n \<and> j < length resp
               \<and> r = \<lparr>rbody = Some (resp ! j), err = None\<rparr>"
  using assms by (cases out) (auto simp: response_def split: option.splits if_splits)

lemma one_invocation:
  assumes inv2: "inv cfg s2" and k: "k < length (calls s2)"
    and mem: "ch \<in> respCh ` set (notified (calls s2 ! k))"
  shows "\<exists>!k. k < length (calls s2) \<and> ch \<in> respCh ` set (notified (calls s2 ! k))"
proof -
  have d: "distinct (map respCh (concat (map notified (calls s2))))"
    using inv_set(2)[OF inv2] by (simp add: served_def)
  have uniq: "k' = k" if "k' < length (calls s2)"
    "ch \<in> respCh ` set (notified (calls s2 ! k'))" for k'
  proof -
    from that(2) obtain a' where a': "a' \<in> set (notified (calls s2 ! k'))" "respCh a' = ch" by auto
    from mem obtain a where a: "a \<in> set (notified (calls s2 ! k))" "respCh a = ch" by auto
    have "respCh a' = respCh a" using a a' by simp
    with that(1) k a'(1) a(1) show ?thesis
      by (intro concat_index_unique[OF d, of k' k a' a]) simp_all
  qed
  show ?thesis
  proof (rule ex1I[of _ k])
    show "k < length (calls s2) \<and> ch \<in> respCh ` set (notified (calls s2 ! k))"
      using k mem by (rule conjI)
  next
    fix k' assume "k' < length (calls s2) \<and> ch \<in> respCh ` set (notified (calls s2 ! k'))"
    then show "k' = k" using uniq by blast
  qed
qed

text \<open>
  What a call that returns a value can rely on. It was registered with channel \<open>ch\<close>
  after any run \<open>evs\<close>, and after any further events \<open>evs'\<close> its \<open>select\<close> returns the
  value \<open>v\<close> without error. Then exactly one invocation of \<open>SendF\<close> had the caller's
  channel among its subscribers; in the slice given to that invocation the caller's
  request body stands at some index \<open>i\<close>, the slice \<open>SendF\<close> returned is as long as the
  batch, and \<open>v\<close> is its element \<open>i\<close>.
\<close>

lemma response_position:
  assumes reg: "SendRequestWithTimeout cfg (Some x) timeout (run cfg evs) = (Inr ch, s1)"
    and s2: "s2 = execs cfg evs' s1"
    and aw: "awaitResponse timeout expired pick ch s2 = Done (Inr v)"
  shows "(\<exists>!k. k < length (calls s2) \<and> ch \<in> respCh ` set (notified (calls s2 ! k)))
       \<and> (\<exists>k i resp. k < length (calls s2) \<and> i < length resp
             \<and> notified (calls s2 ! k) ! i = \<lparr>singleRequestBody = x, respCh = ch\<rparr>
             \<and> sentBatch (calls s2 ! k) ! i = x
             \<and> returned (calls s2 ! k) = (Some resp, None)
             \<and> length resp = length (sentBatch (calls s2 ! k))
             \<and> v = Some (resp ! i))"
proof -
  from awaitResponse_Done[OF aw] obtain r where got: "buf (chans s2 ! ch) = Some r"
    and res: "Inr v = (case err r of Some e \<Rightarrow> Inl e | None \<Rightarrow> Inr (rbody r))"
    by auto
  from res have r: "err r = None" "rbody r = v" by (auto split: option.splits)
  from caller_served[OF reg s2 got] obtain k j where inv2: "inv cfg s2"
    and k: "k < length (calls s2)" and j: "j < length (notified (calls s2 ! k))"
    and sub: "notified (calls s2 ! k) ! j = \<lparr>singleRequestBody = x, respCh = ch\<rparr>"
    and rsp: "response (length (sentBatch (calls s2 ! k))) (returned (calls s2 ! k)) j = Inr r"
    by blast
  let ?c = "calls s2 ! k"
  from invD(3)[OF inv2] k have dl: "delivered cfg (chans s2) k ?c" by blast
  then have sb: "sentBatch ?c = map singleRequestBody (notified ?c)"
    by (simp add: delivered_def)
  from response_value[OF rsp r(1)] obtain resp where resp: "returned ?c = (Some resp, None)"
    "length resp = length (sentBatch ?c)" "j < length resp"
    "r = \<lparr>rbody = Some (resp ! j), err = None\<rparr>"
    by blast
  have x: "sentBatch ?c ! j = x" using sb j sub by simp
  have v: "v = Some (resp ! j)" using r(2) resp(4) by simp
  have mem: "ch \<in> respCh ` set (notified ?c)"
  proof -
    have "notified ?c ! j \<in> set (notified ?c)" using j by simp
    then have "respCh (notified ?c ! j) \<in> respCh ` set (notified ?c)" by (rule imageI)
    then show ?thesis by (simp add: sub)
  qed
  have one: "\<exists>!k. k < length (calls s2) \<and> ch \<in> respCh ` set (notified (calls s2 ! k))"
    using inv2 k mem by (rule one_invocation)
  have "k < length (calls s2) \<and> j < length resp
             \<and> notified (calls s2 ! k) ! j = \<lparr>singleRequestBody = x, respCh = ch\<rparr>
             \<and> sentBatch (calls s2 ! k) ! j = x
             \<and> returned (calls s2 ! k) = (Some resp, None)
             \<and> length resp = length (sentBatch (calls s2 ! k))
             \<and> v = Some (resp ! j)"
    using k resp(3) sub x resp(1) resp(2) v by (intro conjI)
  then have ex: "\<exists>k i resp. k < length (calls s2) \<and> i < length resp
             \<and> notified (calls s2 ! k) ! i = \<lparr>singleRequestBody = x, respCh = ch\<rparr>
             \<and> sentBatch (calls s2 ! k) ! i = x
             \<and> returned (calls s2 ! k) = (Some resp, None)
             \<and> length resp = length (sentBatch (calls s2 ! k))
             \<and> v = Some (resp ! i)"
    by (intro exI)
  from one ex show ?thesis by (rule conjI)
qed

text \<open>
  When the loop of \<open>send\<close> has ended for an invocation that returned a slice of the
  length of its batch, every subscriber \<open>j\<close> of the batch was sent element \<open>j\<close>, and
  nothing else, and its channel is closed.
\<close>

lemma fannedOut_loop_end:
  assumes inv2: "inv cfg s" and k: "k < length (calls s)"
    and fin: "pending (calls s ! k) = 0"
    and resp: "returned (calls s ! k) = (Some resp, None)"
    "length resp = length (sentBatch (calls s ! k))"
  shows "fannedOut s (calls s ! k) resp"
proof -
  let ?c = "calls s ! k"
  from invD(3)[OF inv2] k have dl: "delivered cfg (chans s) k ?c" by blast
  from deliveredD(1)[OF dl] resp(2) have len: "length resp = length (notified ?c)" by simp
  have "sent (chans s ! respCh (notified ?c ! i)) = [\<lparr>rbody = Some (resp ! i), err = None\<rparr>]
        \<and> closed (chans s ! respCh (notified ?c ! i))" if "i < length resp" for i
  proof -
    from that len have i: "i < length (notified ?c)" by simp
    from fin have "pending ?c \<le> i" by simp
    from deliveredD(5)[OF dl i this]
    obtain w where "response (length (sentBatch ?c)) (returned ?c) i = Inr w"
      "processed (chans s ! respCh (notified ?c ! i)) w"
      by blast
    with resp that show ?thesis by (simp add: response_def processed_def)
  qed
  then show ?thesis
    using resp len by (simp add: fannedOut_def list_all_iff)
qed

text \<open>
  C1 on the code. \<open>pairBatcher\<close> has \<open>MaxBatchSize\<close> two. A caller registers \<open>4\<close>, the
  parent context is cancelled and \<open>stop\<close> closes the caller's channel (number 0) but
  leaves its batch in \<open>curBatch\<close>. A second caller registers \<open>5\<close>: the batch is full and
  is sent. \<open>SendF\<close> is invoked once, on \<open>[4, 5]\<close>, and returns \<open>[4, 5]\<close>; the loop of
  \<open>send\<close> publishes element 1 to the second caller, whose \<open>select\<close> can take it: the call
  returns \<open>5\<close> with a \<open>nil\<close> error. The next iteration sends element 0 on the channel
  \<open>stop\<close> closed, and the process panics: subscriber 0 never receives element 0, although
  \<open>SendF\<close> returned a slice of matching length, and the batch is not fanned out.
\<close>

theorem send_after_stop_panics:
  "map returned (calls (run pairBatcher
       [Call (Some 4) 2000000, Cancel, Stop, Call (Some 5) 2000000, Send 0, Publish 0]))
     = [(Some [4, 5], None)]
   \<and> map sentBatch (calls (run pairBatcher
       [Call (Some 4) 2000000, Cancel, Stop, Call (Some 5) 2000000, Send 0, Publish 0]))
     = [[4, 5]]
   \<and> crashed (run pairBatcher
       [Call (Some 4) 2000000, Cancel, Stop, Call (Some 5) 2000000, Send 0, Publish 0])
     = None
   \<and> awaitResponse 2000000 False True 1 (run pairBatcher
       [Call (Some 4) 2000000, Cancel, Stop, Call (Some 5) 2000000, Send 0, Publish 0])
     = Done (Inr (Some 5))
   \<and> chans (run pairBatcher
       [Call (Some 4) 2000000, Cancel, Stop, Call (Some 5) 2000000, Send 0, Publish 0])
     = [\<lparr>buf = None, closed = True, sent = []\<rparr>,
        \<lparr>buf = Some \<lparr>rbody = Some 5, err = None\<rparr>, closed = True,
          sent = [\<lparr>rbody = Some 5, err = None\<rparr>]\<rparr>]
   \<and> crashed (run pairBatcher
       [Call (Some 4) 2000000, Cancel, Stop, Call (Some 5) 2000000, Send 0, Publish 0, Publish 0])
     = Some SendOnClosedChannel
   \<and> chans (run pairBatcher
       [Call (Some 4) 2000000, Cancel, Stop, Call (Some 5) 2000000, Send 0, Publish 0, Publish 0])
     = chans (run pairBatcher
       [Call (Some 4) 2000000, Cancel, Stop, Call (Some 5) 2000000, Send 0, Publish 0])
   \<and> \<not> fannedOut
         (run pairBatcher
           [Call (Some 4) 2000000, Cancel, Stop, Call (Some 5) 2000000, Send 0, Publish 0, Publish 0])
         (calls (run pairBatcher
           [Call (Some 4) 2000000, Cancel, Stop, Call (Some 5) 2000000, Send 0, Publish 0, Publish 0]) ! 0)
         [4, 5]"
  by (simp add: run_simps fannedOut_def)

text \<open>
  C7 as stated fails: \<open>SendF\<close> returns its argument; a call \<open>SendRequestWithTimeout(&5,
  2ms)\<close> is registered and the parent context is cancelled before the batch is sent. The
  deadline of the call has not passed (\<open>expired\<close> is false), yet the \<open>select\<close> ends with
  \<open>Request timeout after 2ms\<close>: the call completes and does not return \<open>5\<close>.
\<close>

theorem identity_roundtrip_parent_cancelled:
  "SendF delayedBatcher = dummySendF
   \<and> SendRequestWithTimeout delayedBatcher (Some 5) 2000000 (run delayedBatcher [])
     = (Inr 0, run delayedBatcher [Call (Some 5) 2000000])
   \<and> awaitResponse 2000000 False True 0
        (execs delayedBatcher [Cancel] (run delayedBatcher [Call (Some 5) 2000000]))
     = Done (Inl (ErrRequestTimeout 2000000))"
  by (simp add: run_simps)

text \<open>
  C7 (amended). If \<open>SendF\<close> returns its argument with a \<open>nil\<close> error (\<open>dummySendF\<close> of the
  tests), then a call \<open>SendRequestWithTimeout(v, t)\<close> that was registered (\<open>v\<close> not \<open>nil\<close>,
  \<open>t\<close> above \<open>BatchTimeout\<close>) and that returns, returns exactly \<open>v\<close> or the error
  \<open>Request timeout after t\<close>, and it returns that error only when its context is done:
  the timeout has expired or the parent context is cancelled. So a call that returns
  while its timeout has not expired and the parent context is not cancelled returns
  exactly \<open>v\<close>.
\<close>

theorem identity_roundtrip:
  assumes idf: "SendF cfg = dummySendF"
    and reg: "SendRequestWithTimeout cfg (Some x) timeout (run cfg evs) = (Inr ch, s1)"
    and s2: "s2 = execs cfg evs' s1"
    and aw: "awaitResponse timeout expired pick ch s2 = Done res"
  shows "res = Inr (Some x)
       \<or> (res = Inl (ErrRequestTimeout timeout) \<and> (expired \<or> parentDone s2))"
proof -
  from awaitResponse_Done[OF aw]
  consider (timeout) "res = Inl (ErrRequestTimeout timeout)" "expired \<or> parentDone s2"
    | (got) r where "buf (chans s2 ! ch) = Some r"
        "res = (case err r of Some e \<Rightarrow> Inl e | None \<Rightarrow> Inr (rbody r))"
    by blast
  then show ?thesis
  proof cases
    case timeout
    then show ?thesis by simp
  next
    case got
    from caller_served[OF reg s2 got(1)] obtain k j where inv2: "inv cfg s2"
      and k: "k < length (calls s2)" and j: "j < length (notified (calls s2 ! k))"
      and sub: "notified (calls s2 ! k) ! j = \<lparr>singleRequestBody = x, respCh = ch\<rparr>"
      and rsp: "response (length (sentBatch (calls s2 ! k))) (returned (calls s2 ! k)) j = Inr r"
      by blast
    let ?c = "calls s2 ! k"
    from invD(3)[OF inv2] k have dl: "delivered cfg (chans s2) k ?c" by blast
    then have sb: "sentBatch ?c = map singleRequestBody (notified ?c)"
      and rt: "returned ?c = (Some (sentBatch ?c), None)"
      by (simp_all add: delivered_def idf dummySendF_def)
    from rsp rt j sb have "r = \<lparr>rbody = Some (sentBatch ?c ! j), err = None\<rparr>"
      by (simp add: response_def)
    moreover have "sentBatch ?c ! j = x" using sb j sub by simp
    ultimately show ?thesis using got(2) by simp
  qed
qed

theorem identity_roundtrip_witness:
  "SendF pairBatcher = dummySendF
   \<and> SendRequestWithTimeout pairBatcher (Some 7) 2000000 (run pairBatcher [])
     = (Inr 0, run pairBatcher [Call (Some 7) 2000000])
   \<and> parentDone (execs pairBatcher [Call (Some 8) 2000000, Send 0, Publish 0, Publish 0]
        (run pairBatcher [Call (Some 7) 2000000])) = False
   \<and> awaitResponse 2000000 False True 0
        (execs pairBatcher [Call (Some 8) 2000000, Send 0, Publish 0, Publish 0]
           (run pairBatcher [Call (Some 7) 2000000]))
     = Done (Inr (Some 7))"
proof -
  have idf: "SendF pairBatcher = dummySendF" by (simp add: pairBatcher_def)
  have reg: "SendRequestWithTimeout pairBatcher (Some 7) 2000000 (run pairBatcher [])
     = (Inr 0, run pairBatcher [Call (Some 7) 2000000])"
    by (simp add: run_simps)
  have pd: "parentDone (execs pairBatcher [Call (Some 8) 2000000, Send 0, Publish 0, Publish 0]
        (run pairBatcher [Call (Some 7) 2000000])) = False"
    by (simp add: run_simps)
  have aw: "\<exists>res. awaitResponse 2000000 False True 0
        (execs pairBatcher [Call (Some 8) 2000000, Send 0, Publish 0, Publish 0]
           (run pairBatcher [Call (Some 7) 2000000]))
     = Done res"
    by (simp add: run_simps)
  then obtain res where res: "awaitResponse 2000000 False True 0
        (execs pairBatcher [Call (Some 8) 2000000, Send 0, Publish 0, Publish 0]
           (run pairBatcher [Call (Some 7) 2000000]))
     = Done res" ..
  from identity_roundtrip[OF idf reg refl res] pd have "res = Inr (Some 7)" by simp
  with idf reg pd res show ?thesis by simp
qed


subsection \<open>Channels after shutdown\<close>

text \<open>
  In every run, no channel was ever sent more than one value.
\<close>

lemma sent_at_most_once:
  assumes "c < length (chans (run cfg evs))"
  shows "length (sent (chans (run cfg evs) ! c)) \<le> 1"
proof -
  let ?s = "run cfg evs"
  have i: "inv cfg ?s" by (rule inv_run)
  from inv_set(1)[OF i] assms
  have "c \<in> set (map respCh (waiting ?s @ served ?s))" by simp
  then obtain u where u: "u \<in> set (waiting ?s) \<union> set (served ?s)" "respCh u = c" by auto
  from u(1) show ?thesis
  proof
    assume "u \<in> set (waiting ?s)"
    with invD(4)[OF i] u(2) show ?thesis by (auto simp: untouched_def)
  next
    assume "u \<in> set (served ?s)"
    then obtain ns where ns: "ns \<in> set (map notified (calls ?s))" "u \<in> set ns"
      unfolding served_def by auto
    then obtain k where k: "k < length (calls ?s)" "ns = notified (calls ?s ! k)"
      by (auto simp: in_set_conv_nth)
    from ns(2) k(2) obtain j where j: "j < length (notified (calls ?s ! k))"
      "notified (calls ?s ! k) ! j = u"
      by (auto simp: in_set_conv_nth)
    from invD(3)[OF i] k(1) have dl: "delivered cfg (chans ?s) k (calls ?s ! k)" by blast
    show ?thesis
    proof (cases "j < pending (calls ?s ! k)")
      case True
      from deliveredD(4)[OF dl True] show ?thesis by (simp add: untouched_def j(2) u(2))
    next
      case False
      then have "pending (calls ?s ! k) \<le> j" by simp
      from deliveredD(5)[OF dl j(1) this] obtain v where "processed (chans ?s ! c) v"
        by (auto simp: j(2) u(2))
      then show ?thesis by (simp add: processed_def)
    qed
  qed
qed

text \<open>
  \<open>registerRequest\<close> never reads \<open>running\<close>: the flag that \<open>stop\<close> clears changes
  nothing in what a registration returns or does.
\<close>

lemma registerRequest_ignores_running:
  "registerRequest cfg x (s\<lparr>running := r\<rparr>)
     = (fst (registerRequest cfg x s), (snd (registerRequest cfg x s))\<lparr>running := r\<rparr>)"
  by (simp add: registerRequest_def Let_def createBatch_def sendCurBatch_def
        split: option.splits)

text \<open>
  C3 on the code. The parent context is cancelled and \<open>stop\<close> has run on a fresh
  \<open>delayedBatcher\<close>: \<open>running\<close> is false and there is no open batch. A call
  \<open>SendRequestWithTimeout(&5, 2ms)\<close> is then registered all the same: it gets channel 0,
  a new batch with its request and a new timer is opened, and its \<open>select\<close> ends with
  \<open>Request timeout after 2ms\<close>, the parent context being done. When \<open>stop\<close> found an
  open batch, the call is appended to that batch.
\<close>

theorem stopped_batcher_registers:
  "running (run delayedBatcher [Cancel, Stop]) = False
   \<and> curBatch (run delayedBatcher [Cancel, Stop]) = None
   \<and> fst (SendRequestWithTimeout delayedBatcher (Some 5) 2000000 (run delayedBatcher [Cancel, Stop]))
       = Inr 0
   \<and> curBatch (snd (SendRequestWithTimeout delayedBatcher (Some 5) 2000000
                      (run delayedBatcher [Cancel, Stop])))
       = Some \<lparr>body = [5], subscribers = [\<lparr>singleRequestBody = 5, respCh = 0\<rparr>], timer = 0\<rparr>
   \<and> awaitResponse 2000000 False True 0
         (snd (SendRequestWithTimeout delayedBatcher (Some 5) 2000000
                 (run delayedBatcher [Cancel, Stop])))
       = Done (Inl (ErrRequestTimeout 2000000))
   \<and> body (the (curBatch (run delayedBatcher
                 [Call (Some 4) 2000000, Cancel, Stop, Call (Some 5) 2000000]))) = [4, 5]"
  by (simp add: run_simps)


text \<open>
  C4 on the code. One caller waits in \<open>SendRequestWithTimeout\<close>, the parent context is
  cancelled and \<open>stop\<close> closes the caller's channel without a value. When the \<open>select\<close>
  takes the receive, it gets \<open>nil\<close> and \<open>resp.err\<close> panics; when it takes \<open>ctx.Done()\<close>,
  the call returns \<open>Request timeout after 2ms\<close>.
\<close>

theorem stop_closed_channel_panics:
  "chans (run delayedBatcher [Call (Some 5) 2000000, Cancel, Stop])
     = [\<lparr>buf = None, closed = True, sent = []\<rparr>]
   \<and> awaitResponse 2000000 False True 0 (run delayedBatcher [Call (Some 5) 2000000, Cancel, Stop])
       = Panic NilPointerDereference
   \<and> awaitResponse 2000000 False False 0 (run delayedBatcher [Call (Some 5) 2000000, Cancel, Stop])
       = Done (Inl (ErrRequestTimeout 2000000))"
  by (simp add: run_simps)


text \<open>
  C2 on the code. A caller registers, the parent context is cancelled and \<open>stop\<close> runs,
  a second caller registers: its channel (number 1) joins the batch \<open>stop\<close> left in
  \<open>curBatch\<close>, whose timer is stopped. No goroutine is pending, no timer can fire, and
  none of the events a run has left changes the state: the channel is never closed.
  With \<open>MaxBatchSize\<close> two, the second registration fills that batch and \<open>send\<close>, in
  the second iteration of its loop, panics on the channel \<open>stop\<close> closed.
\<close>

theorem stop_orphans_channel:
  "chans (run delayedBatcher [Call (Some 4) 2000000, Cancel, Stop, Call (Some 5) 2000000])
     = [\<lparr>buf = None, closed = True, sent = []\<rparr>, \<lparr>buf = None, closed = False, sent = []\<rparr>]
   \<and> timers (run delayedBatcher [Call (Some 4) 2000000, Cancel, Stop, Call (Some 5) 2000000])
     = [Stopped]
   \<and> goroutines (run delayedBatcher [Call (Some 4) 2000000, Cancel, Stop, Call (Some 5) 2000000])
     = []
   \<and> crashed (run delayedBatcher [Call (Some 4) 2000000, Cancel, Stop, Call (Some 5) 2000000])
     = None
   \<and> run delayedBatcher [Call (Some 4) 2000000, Cancel, Stop, Call (Some 5) 2000000,
         Fire 0, Callback 0, Send 0, Publish 0, Receive 0, Receive 1, Stop, Cancel]
     = run delayedBatcher [Call (Some 4) 2000000, Cancel, Stop, Call (Some 5) 2000000]
   \<and> crashed (run pairBatcher [Call (Some 4) 2000000, Cancel, Stop, Call (Some 5) 2000000,
         Send 0, Publish 0, Publish 0])
     = Some SendOnClosedChannel"
  by (simp add: run_simps)

end
